theory Spec2Isabelle
  imports Complex_Main
begin

section \<open>Graph engine: topology\<close>

text \<open>
  The class \<^verbatim>\<open>GraphEngine\<close>. Node identifiers are JavaScript numbers holding integers,
  modelled as \<^typ>\<open>int\<close>; delays, bandwidths and utilisations are modelled as \<^typ>\<open>real\<close>.
\<close>

datatype tier = Edge | Core | Cloud

record Node =
  node_id :: int
  tier :: tier
  physical_map :: string
  quality :: string
  node_utilization :: real

record Link =
  link_u :: int
  link_v :: int
  bw_mbps :: real
  delay_ms :: real
  jitter_ms :: real
  loss_rate :: real
  link_utilization :: real

record AdjacencyEntry =
  neighbor :: int
  link :: Link

text \<open>
  \<^verbatim>\<open>nodes\<close> and \<^verbatim>\<open>adjacencyList\<close> are \<^verbatim>\<open>Map\<close>s, iterated in insertion order: association
  lists. An adjacency entry refers to the link object; the model copies the link, which
  is the same as long as no link is mutated after the build (the fault knobs are not
  modelled).
\<close>

record GraphEngine =
  nodes :: "(int \<times> Node) list"
  links :: "Link list"
  adjacencyList :: "(int \<times> AdjacencyEntry list) list"

text \<open>\<^verbatim>\<open>Map.prototype.set\<close>: an existing key keeps its place, a new key goes last.\<close>

fun mapSet :: "int \<Rightarrow> 'v \<Rightarrow> (int \<times> 'v) list \<Rightarrow> (int \<times> 'v) list" where
  "mapSet k v [] = [(k, v)]"
| "mapSet k v ((k', v') # m) = (if k' = k then (k, v) # m else (k', v') # mapSet k v m)"

definition hasNode :: "GraphEngine \<Rightarrow> int \<Rightarrow> bool" where
  "hasNode g n = (map_of (nodes g) n \<noteq> None)"

text \<open>\<^verbatim>\<open>this.adjacencyList.get(n) || []\<close>\<close>

definition getNeighbors :: "GraphEngine \<Rightarrow> int \<Rightarrow> AdjacencyEntry list" where
  "getNeighbors g n = (case map_of (adjacencyList g) n of Some es \<Rightarrow> es | None \<Rightarrow> [])"

text \<open>\<^verbatim>\<open>this.adjacencyList.get(n)!.push(e)\<close>, for a key that is present.\<close>

fun pushEntry :: "int \<Rightarrow> AdjacencyEntry \<Rightarrow> (int \<times> AdjacencyEntry list) list
                    \<Rightarrow> (int \<times> AdjacencyEntry list) list" where
  "pushEntry n e [] = []"
| "pushEntry n e ((k, es) # m) = (if k = n then (k, es @ [e]) # m else (k, es) # pushEntry n e m)"

section \<open>Graph engine: shortest path\<close>

text \<open>
  The working state of Dijkstra's loop. In \<open>distances\<close>, a node without an entry stands
  at \<^verbatim>\<open>Infinity\<close> (the source initialises every node of the topology to \<^verbatim>\<open>Infinity\<close>, and
  reads a missing key with \<^verbatim>\<open>|| Infinity\<close>). In \<open>previous\<close>, a node without an entry has
  the predecessor \<^verbatim>\<open>null\<close>. \<open>visited\<close> is a \<^verbatim>\<open>Set\<close>, kept in insertion order.
\<close>

record dijkstra_state =
  distances :: "int \<rightharpoonup> real"
  previous :: "int \<rightharpoonup> int"
  visited :: "int list"
  priorityQueue :: "(real \<times> int) list"

text \<open>
  \<^verbatim>\<open>newDist < (distances.get(neighbor) || Infinity)\<close>: the operator \<^verbatim>\<open>||\<close> replaces a stored
  distance of 0 by \<^verbatim>\<open>Infinity\<close> as well.
\<close>

definition improves :: "real \<Rightarrow> real option \<Rightarrow> bool" where
  "improves newDist old =
     (case old of None \<Rightarrow> True | Some d \<Rightarrow> if d = 0 then True else newDist < d)"

text \<open>The body of the loop over the neighbours of the current node.\<close>

definition relax :: "int set \<Rightarrow> int \<Rightarrow> real \<Rightarrow> int \<Rightarrow> AdjacencyEntry \<Rightarrow> dijkstra_state
                       \<Rightarrow> dijkstra_state" where
  "relax excludeNodes dst currentDist currentNode e s =
     (if neighbor e \<in> excludeNodes \<and> neighbor e \<noteq> dst then s
      else if neighbor e \<notin> set (visited s) then
        (let newDist = currentDist + delay_ms (link e)
         in if improves newDist (distances s (neighbor e))
            then s\<lparr>distances := (distances s)(neighbor e \<mapsto> newDist),
                   previous := (previous s)(neighbor e \<mapsto> currentNode),
                   priorityQueue := priorityQueue s @ [(newDist, neighbor e)]\<rparr>
            else s)
      else s)"

text \<open>
  The \<^verbatim>\<open>while\<close> loop. Each round sorts the queue by distance (the sort is stable, as
  \<^const>\<open>sort_key\<close> is) and takes its head. An omitted \<^verbatim>\<open>excludeNodes\<close> is the empty set.
\<close>

function dijkstraLoop :: "GraphEngine \<Rightarrow> int \<Rightarrow> int \<Rightarrow> int set \<Rightarrow> dijkstra_state
                            \<Rightarrow> dijkstra_state" where
  "dijkstraLoop g src dst excludeNodes s =
     (case sort_key fst (priorityQueue s) of
        [] \<Rightarrow> s
      | (currentDist, currentNode) # rest \<Rightarrow>
          if currentNode \<in> set (visited s)
          then dijkstraLoop g src dst excludeNodes (s\<lparr>priorityQueue := rest\<rparr>)
          else
            (let s1 = s\<lparr>priorityQueue := rest, visited := visited s @ [currentNode]\<rparr>
             in if currentNode = dst then s1
                else if currentNode \<in> excludeNodes \<and> currentNode \<noteq> src \<and> currentNode \<noteq> dst
                then dijkstraLoop g src dst excludeNodes s1
                else dijkstraLoop g src dst excludeNodes
                       (fold (relax excludeNodes dst currentDist currentNode)
                             (getNeighbors g currentNode) s1)))"
  by pat_completeness auto

text \<open>
  The loop ends: a node leaves the queue at every round, and only the first visit of a
  node adds to the queue, at most one entry for each of its neighbours.
\<close>

definition pendingWork :: "GraphEngine \<Rightarrow> dijkstra_state \<Rightarrow> nat" where
  "pendingWork g s =
     length (priorityQueue s)
     + (\<Sum>n\<leftarrow>remdups (map fst (adjacencyList g)).
          if n \<in> set (visited s) then 0 else Suc (length (getNeighbors g n)))"

lemma relax_visited: "visited (relax ex dst d c e s) = visited s"
  by (simp add: relax_def Let_def)

lemma relax_queue: "length (priorityQueue (relax ex dst d c e s)) \<le> Suc (length (priorityQueue s))"
  by (simp add: relax_def Let_def)

lemma fold_relax_visited: "visited (fold (relax ex dst d c) es s) = visited s"
  by (induction es arbitrary: s) (simp_all add: relax_visited)

lemma fold_relax_queue:
  "length (priorityQueue (fold (relax ex dst d c) es s)) \<le> length (priorityQueue s) + length es"
proof (induction es arbitrary: s)
  case Nil
  then show ?case by simp
next
  case (Cons e es)
  have "length (priorityQueue (fold (relax ex dst d c) es (relax ex dst d c e s)))
          \<le> length (priorityQueue (relax ex dst d c e s)) + length es"
    by (rule Cons.IH)
  also have "\<dots> \<le> Suc (length (priorityQueue s)) + length es"
    using relax_queue [of ex dst d c e s] by simp
  finally show ?case by simp
qed

lemma unvisited_sum_mono:
  "(\<Sum>n\<leftarrow>ks. if n \<in> set (vs @ [c]) then 0 else Suc (f n))
     \<le> (\<Sum>n\<leftarrow>ks. if n \<in> set vs then 0 else Suc (f n))"
  by (induction ks) auto

lemma unvisited_sum_drop:
  assumes "c \<in> set ks" and "c \<notin> set vs"
  shows "(\<Sum>n\<leftarrow>ks. if n \<in> set (vs @ [c]) then 0 else Suc (f n)) + Suc (f c)
           \<le> (\<Sum>n\<leftarrow>ks. if n \<in> set vs then 0 else Suc (f n))"
  using assms
proof (induction ks)
  case Nil
  then show ?case by simp
next
  case (Cons k ks)
  show ?case
  proof (cases "k = c")
    case True
    then show ?thesis
      using unvisited_sum_mono [where ks = ks and vs = vs and c = c and f = f] Cons.prems
      by simp
  next
    case False
    then have "c \<in> set ks" using Cons.prems by simp
    then show ?thesis
      using Cons.IH Cons.prems False by auto
  qed
qed

lemma getNeighbors_no_key:
  "c \<notin> set (map fst (adjacencyList g)) \<Longrightarrow> getNeighbors g c = []"
  by (simp add: getNeighbors_def map_of_eq_None_iff [THEN iffD2])

lemma pendingWork_visit:
  assumes "c \<notin> set (visited s)" and "length q < length (priorityQueue s)"
  shows "pendingWork g (s\<lparr>priorityQueue := q, visited := visited s @ [c]\<rparr>) < pendingWork g s"
  using assms unvisited_sum_mono [where ks = "remdups (map fst (adjacencyList g))"
      and vs = "visited s" and c = c and f = "\<lambda>n. length (getNeighbors g n)"]
  by (simp add: pendingWork_def)

lemma pendingWork_relax:
  assumes "c \<notin> set (visited s)" and "length q < length (priorityQueue s)"
  shows "pendingWork g (fold (relax ex dst d c) (getNeighbors g c)
                          (s\<lparr>priorityQueue := q, visited := visited s @ [c]\<rparr>))
           < pendingWork g s"
proof (cases "c \<in> set (map fst (adjacencyList g))")
  case True
  then have "c \<in> set (remdups (map fst (adjacencyList g)))" by simp
  from unvisited_sum_drop [OF this assms(1), where f = "\<lambda>n. length (getNeighbors g n)"]
    fold_relax_queue [of ex dst d c "getNeighbors g c"
      "s\<lparr>priorityQueue := q, visited := visited s @ [c]\<rparr>"]
    assms(2)
  show ?thesis
    by (simp add: pendingWork_def fold_relax_visited)
next
  case False
  then have "getNeighbors g c = []" by (rule getNeighbors_no_key)
  then show ?thesis
    using pendingWork_visit [OF assms] by simp
qed

termination dijkstraLoop
proof (relation "measure (\<lambda>(g, src, dst, ex, s). pendingWork g s)", goal_cases)
  case 1
  then show ?case by simp
next
  case (2 g src dst ex s x y currentDist currentNode)
  then have "length y < length (priorityQueue s)"
    using length_sort [of fst "priorityQueue s"] by simp
  then show ?case by (simp add: pendingWork_def)
next
  case (3 g src dst ex s x y currentDist currentNode s1)
  then have "length y < length (priorityQueue s)"
    using length_sort [of fst "priorityQueue s"] by simp
  with 3 show ?case
    using pendingWork_visit [of currentNode s y g] by simp
next
  case (4 g src dst ex s x y currentDist currentNode s1)
  then have "length y < length (priorityQueue s)"
    using length_sort [of fst "priorityQueue s"] by simp
  with 4 show ?case
    using pendingWork_relax [of currentNode s y g ex dst currentDist] by simp
qed

declare dijkstraLoop.simps [simp del]

text \<open>\<^verbatim>\<open>previous.get(current) || null\<close>: a missing entry, \<^verbatim>\<open>null\<close> and the node id 0 all give \<^verbatim>\<open>null\<close>.\<close>

definition orNull :: "int option \<Rightarrow> int option" where
  "orNull p = (case p of None \<Rightarrow> None | Some n \<Rightarrow> if n = 0 then None else Some n)"

text \<open>
  The reconstruction loop \<^verbatim>\<open>while (current !== null)\<close>. It follows \<open>previous\<close> for as long
  as there is a predecessor, so on a cyclic map it would not end: \<open>None\<close> is the result
  of a loop that does not return.
\<close>

partial_function (option) reconstructPath :: "(int \<rightharpoonup> int) \<Rightarrow> int option \<Rightarrow> int list
                                               \<Rightarrow> int list option" where
  "reconstructPath prev current path =
     (case current of
        None \<Rightarrow> Some path
      | Some n \<Rightarrow> reconstructPath prev (orNull (prev n)) (n # path))"

declare reconstructPath.simps [code]

text \<open>
  \<^verbatim>\<open>findShortestPath\<close>. The result \<open>Some None\<close> is the source's \<^verbatim>\<open>null\<close> (no path), and
  \<open>Some (Some p)\<close> the returned node sequence.
\<close>

definition findShortestPath :: "GraphEngine \<Rightarrow> int \<Rightarrow> int \<Rightarrow> int set \<Rightarrow> int list option option" where
  "findShortestPath g src dst excludeNodes =
     (if \<not> hasNode g src then Some None
      else if \<not> hasNode g dst then Some None
      else
        (let s = dijkstraLoop g src dst excludeNodes
                   \<lparr>distances = [src \<mapsto> 0], previous = Map.empty, visited = [],
                    priorityQueue = [(0, src)]\<rparr>
         in if distances s dst = None then Some None
            else map_option Some (reconstructPath (previous s) (Some dst) [])))"

section \<open>Graph engine: node-disjoint paths and tier validity\<close>

text \<open>The nodes \<^verbatim>\<open>path[1] \<dots> path[path.length - 2]\<close>.\<close>

definition innerNodes :: "int list \<Rightarrow> int list" where
  "innerNodes path = butlast (tl path)"

text \<open>
  The loop \<^verbatim>\<open>for (let i = 0; i < k; i++)\<close> of \<^verbatim>\<open>findKShortestPaths\<close>, counting the rounds
  that are left.
\<close>

fun kPathsLoop :: "GraphEngine \<Rightarrow> int \<Rightarrow> int \<Rightarrow> int set \<Rightarrow> nat \<Rightarrow> int list list \<Rightarrow> int set
                     \<Rightarrow> int list list option" where
  "kPathsLoop g src dst initialExcludeSet 0 foundPaths usedIntermediateNodes = Some foundPaths"
| "kPathsLoop g src dst initialExcludeSet (Suc i) foundPaths usedIntermediateNodes =
     (let currentExcludeSet =
            initialExcludeSet \<union> Set.filter (\<lambda>n. n \<noteq> src \<and> n \<noteq> dst) usedIntermediateNodes
      in case findShortestPath g src dst currentExcludeSet of
           None \<Rightarrow> None
         | Some None \<Rightarrow> Some foundPaths
         | Some (Some path) \<Rightarrow>
             kPathsLoop g src dst initialExcludeSet i (foundPaths @ [path])
               (usedIntermediateNodes \<union> set (innerNodes path)))"

text \<open>
  \<^verbatim>\<open>findKShortestPaths\<close>, as the list of the node sequences of the returned paths. The
  latency, capacity and score that the source attaches to each of them are not modelled.
\<close>

definition findKShortestPaths :: "GraphEngine \<Rightarrow> int \<Rightarrow> int \<Rightarrow> int \<Rightarrow> int list
                                    \<Rightarrow> int list list option" where
  "findKShortestPaths g src dst k excludeNodes =
     (if \<not> hasNode g src \<or> \<not> hasNode g dst then Some []
      else if k \<le> 0 then Some []
      else kPathsLoop g src dst (set excludeNodes) (nat k) [] {})"

definition tierOrder :: "tier \<Rightarrow> nat" where
  "tierOrder t = (case t of Edge \<Rightarrow> 1 | Core \<Rightarrow> 2 | Cloud \<Rightarrow> 3)"

fun tiersAscend :: "GraphEngine \<Rightarrow> nat \<Rightarrow> int list \<Rightarrow> bool" where
  "tiersAscend g currentTierLevel [] = True"
| "tiersAscend g currentTierLevel (n # path) =
     (case map_of (nodes g) n of
        None \<Rightarrow> False
      | Some node \<Rightarrow>
          if tierOrder (tier node) < currentTierLevel then False
          else tiersAscend g (tierOrder (tier node)) path)"

definition isValidPath :: "GraphEngine \<Rightarrow> int list \<Rightarrow> bool" where
  "isValidPath g path =
     (if length path < 2 then False
      else if \<not> tiersAscend g 0 path then False
      else (case (map_of (nodes g) (hd path), map_of (nodes g) (last path)) of
              (Some firstNode, Some lastNode) \<Rightarrow>
                 \<not> (tier firstNode \<noteq> Edge \<or> tier lastNode \<noteq> Cloud)
            | _ \<Rightarrow> False))"

section \<open>Graph engine: loading\<close>

datatype connectivity = NoEdgeOrCloud | Verified | MayNotBeConnected

text \<open>
  \<^verbatim>\<open>verifyConnectivity\<close> tests the first edge node against the first cloud node and
  writes one of three messages to the console; the model returns which one. It raises
  nothing.
\<close>

definition verifyConnectivity :: "GraphEngine \<Rightarrow> connectivity option" where
  "verifyConnectivity g =
     (let edgeNodes = filter (\<lambda>n. tier n = Edge) (map snd (nodes g));
          cloudNodes = filter (\<lambda>n. tier n = Cloud) (map snd (nodes g))
      in case (edgeNodes, cloudNodes) of
           (e # _, c # _) \<Rightarrow>
             (case findShortestPath g (node_id e) (node_id c) {} of
                None \<Rightarrow> None
              | Some None \<Rightarrow> Some MayNotBeConnected
              | Some (Some testPath) \<Rightarrow> Some Verified)
         | _ \<Rightarrow> Some NoEdgeOrCloud)"

definition addLink :: "GraphEngine \<Rightarrow> Link \<Rightarrow> (int \<times> AdjacencyEntry list) list
                         \<Rightarrow> (int \<times> AdjacencyEntry list) list" where
  "addLink g l adj =
     (if \<not> hasNode g (link_u l) then adj
      else if \<not> hasNode g (link_v l) then adj
      else pushEntry (link_v l) \<lparr>neighbor = link_u l, link = l\<rparr>
             (pushEntry (link_u l) \<lparr>neighbor = link_v l, link = l\<rparr> adj))"

text \<open>
  \<^verbatim>\<open>buildGraph\<close>: the adjacency list, then the connectivity check, whose outcome is
  logged and otherwise dropped.
\<close>

definition buildGraph :: "GraphEngine \<Rightarrow> GraphEngine option" where
  "buildGraph g =
     (let g' = g\<lparr>adjacencyList := fold (addLink g) (links g) (map (\<lambda>(n, _). (n, [])) (nodes g))\<rparr>
      in case verifyConnectivity g' of None \<Rightarrow> None | Some report \<Rightarrow> Some g')"

text \<open>
  The parsed topology descriptor. A \<^verbatim>\<open>nodes\<close> or \<^verbatim>\<open>links\<close> member that is missing or no
  array is \<open>None\<close>. An entry of \<^verbatim>\<open>nodes\<close> is a node object or \<^verbatim>\<open>null\<close> (\<open>None\<close>); an entry of
  \<^verbatim>\<open>links\<close> is a link object. The objects have the members of \<^verbatim>\<open>Node\<close> and \<^verbatim>\<open>Link\<close>; the
  source does not inspect them.
\<close>

record TopologyData =
  td_nodes :: "Node option list option"
  td_links :: "Link list option"

text \<open>
  The errors that \<^verbatim>\<open>loadTopology\<close> lets through: the one of \<^verbatim>\<open>readFileSync\<close> or
  \<^verbatim>\<open>JSON.parse\<close>, the two that it raises itself, and the \<^verbatim>\<open>TypeError\<close> of reading
  \<^verbatim>\<open>node.id\<close> from an entry that is \<^verbatim>\<open>null\<close>.
\<close>

datatype load_error = CannotReadOrParse | InvalidNodesArray | InvalidLinksArray | NullNodeEntry

text \<open>
  \<^verbatim>\<open>loadTopology\<close>, from the outcome of reading and parsing the file (\<open>None\<close> when
  \<^verbatim>\<open>readFileSync\<close> or \<^verbatim>\<open>JSON.parse\<close> throws, or when the parsed value has no members to
  read). \<open>Inl\<close> is the error the source rethrows; the outer \<open>None\<close> is a connectivity
  check that does not return. Both arrays are tested before the loop over \<^verbatim>\<open>nodes\<close>
  reaches an entry that is \<^verbatim>\<open>null\<close>.
\<close>

definition loadTopology :: "GraphEngine \<Rightarrow> TopologyData option \<Rightarrow> (load_error + GraphEngine) option" where
  "loadTopology g parsed =
     (case parsed of
        None \<Rightarrow> Some (Inl CannotReadOrParse)
      | Some topologyData \<Rightarrow>
          (case td_nodes topologyData of
             None \<Rightarrow> Some (Inl InvalidNodesArray)
           | Some ns \<Rightarrow>
               (case td_links topologyData of
                  None \<Rightarrow> Some (Inl InvalidLinksArray)
                | Some ls \<Rightarrow>
                    (case those ns of
                       None \<Rightarrow> Some (Inl NullNodeEntry)
                     | Some objs \<Rightarrow>
                         map_option Inr
                           (buildGraph
                              (g\<lparr>nodes := fold (\<lambda>n m. mapSet (node_id n) (n\<lparr>node_utilization := 0\<rparr>) m)
                                              objs [],
                                 links := map (\<lambda>l. l\<lparr>link_utilization := 0\<rparr>) ls\<rparr>))))))"

section \<open>PRFC controller: bottleneck identification\<close>

text \<open>
  The controller of \<^verbatim>\<open>prfc.ts\<close> works on JavaScript numbers. Node and path identifiers
  are the integers that a JavaScript number holds and are modelled as \<^typ>\<open>int\<close>; latencies,
  loads and timestamps are modelled as \<^typ>\<open>real\<close>, so rounding of the floating-point
  operations is not part of the model.
\<close>

text \<open>
  \<^verbatim>\<open>new Set(path)\<close> is iterated in insertion order: each node once, at the place of its
  first occurrence.
\<close>

fun uniqueNodes :: "int list \<Rightarrow> int list" where
  "uniqueNodes [] = []"
| "uniqueNodes (x # xs) = x # removeAll x (uniqueNodes xs)"

text \<open>
  \<^verbatim>\<open>nodeCount\<close> is a \<^verbatim>\<open>Map<number, number>\<close>; it keeps its keys in insertion order, which
  the later loop over \<^verbatim>\<open>nodeCount.entries()\<close> observes, so it is an association list.
  \<^verbatim>\<open>nodeCount.set(nodeId, (nodeCount.get(nodeId) || 0) + 1)\<close> is \<open>bumpCount\<close>.
\<close>

fun bumpCount :: "int \<Rightarrow> (int \<times> nat) list \<Rightarrow> (int \<times> nat) list" where
  "bumpCount n [] = [(n, 1)]"
| "bumpCount n ((k, c) # m) = (if k = n then (k, c + 1) # m else (k, c) # bumpCount n m)"

definition countNodes :: "int list list \<Rightarrow> (int \<times> nat) list" where
  "countNodes paths = fold (\<lambda>path m. fold bumpCount (uniqueNodes path) m) paths []"

text \<open>\<^verbatim>\<open>nodeCount.get(n) || 0\<close>\<close>

definition countOf :: "(int \<times> nat) list \<Rightarrow> int \<Rightarrow> nat" where
  "countOf m n = (case map_of m n of Some c \<Rightarrow> c | None \<Rightarrow> 0)"

text \<open>\<^verbatim>\<open>Math.max(2, Math.ceil(paths.length * 0.5))\<close>\<close>

definition commonThreshold :: "nat \<Rightarrow> nat" where
  "commonThreshold len = max 2 ((len + 1) div 2)"

text \<open>
  \<^verbatim>\<open>Array.prototype.sort\<close> is stable; the comparator orders by count, descending.
  \<^const>\<open>sort_key\<close> is a stable insertion sort, here on the negated count.
\<close>

definition findCommonNodes :: "int list list \<Rightarrow> int list" where
  "findCommonNodes paths =
     (case paths of
        [] \<Rightarrow> []
      | [p] \<Rightarrow> p
      | _ \<Rightarrow>
         (let nodeCount = countNodes paths;
              threshold = commonThreshold (length paths);
              commonNodes = map fst (filter (\<lambda>(nodeId, count). count \<ge> threshold) nodeCount)
          in sort_key (\<lambda>n. - int (countOf nodeCount n)) commonNodes))"

text \<open>The number of the given paths on which a node lies, at any position.\<close>

definition occurrences :: "int list list \<Rightarrow> int \<Rightarrow> nat" where
  "occurrences paths n = length (filter (\<lambda>p. n \<in> set p) paths)"

section \<open>PRFC controller: state and telemetry\<close>

datatype path_status = Healthy | Degraded | Recovering

record BatchLatency =
  ts :: real
  latencyMs :: real

record PathMetrics =
  nodeIds :: "int list"
  ewma :: real
  slope :: real
  loadPercentage :: real
  status :: path_status
  lastFailureTime :: real
  lastRecoveryTime :: real
  latencyWindow :: "BatchLatency list"

text \<open>
  The fields of the class \<^verbatim>\<open>PRFCController\<close> that the operations below read or write.
  The aggregate window, EWMA and slope carry the suffix \<open>_all\<close> to tell them from the
  per-path fields of the same name. \<^verbatim>\<open>paths\<close> is a \<^verbatim>\<open>Map\<close>, iterated in insertion order:
  an association list with distinct keys. \<^verbatim>\<open>optimalDistribution\<close> is an object that is only
  read by key: a map.
\<close>

record PRFCController =
  latencyWindow_all :: "BatchLatency list"
  ewma_all :: real
  slope_all :: real
  paths :: "(int \<times> PathMetrics) list"
  optimalDistribution :: "int \<rightharpoonup> real"
  windowSize :: int
  alpha :: real
  ewmaMaxMs :: real
  slopeMinMsPerS :: real

definition RECOVERY_HOLD_TIME_MS :: real where
  "RECOVERY_HOLD_TIME_MS = 20000"

definition STABILITY_TIME_MS :: real where
  "STABILITY_TIME_MS = 15000"

definition TRANSITION_DURATION_MS :: real where
  "TRANSITION_DURATION_MS = 7000"

text \<open>The constructor: empty windows, both aggregates zero, no path registered.\<close>

definition newController :: "int \<Rightarrow> real \<Rightarrow> real \<Rightarrow> real \<Rightarrow> PRFCController" where
  "newController w a emax smin =
     \<lparr>latencyWindow_all = [], ewma_all = 0, slope_all = 0, paths = [],
      optimalDistribution = Map.empty, windowSize = w, alpha = a, ewmaMaxMs = emax,
      slopeMinMsPerS = smin\<rparr>"

text \<open>\<^verbatim>\<open>push\<close>, then \<^verbatim>\<open>shift\<close> once when the window is longer than \<^verbatim>\<open>windowSize\<close>.\<close>

definition pushWindow :: "int \<Rightarrow> BatchLatency \<Rightarrow> BatchLatency list \<Rightarrow> BatchLatency list" where
  "pushWindow w b win =
     (let win' = win @ [b] in if int (length win') > w then tl win' else win')"

text \<open>
  The least-squares slope of the window against the index \<open>0, 1, \<dots>\<close>, with the four
  running sums of the source's loop.
\<close>

definition regressionSlope :: "real list \<Rightarrow> real" where
  "regressionSlope ys =
     (let n = real (length ys);
          sumX = (\<Sum>i\<leftarrow>[0..<length ys]. real i);
          sumY = (\<Sum>i\<leftarrow>[0..<length ys]. ys ! i);
          sumXY = (\<Sum>i\<leftarrow>[0..<length ys]. real i * ys ! i);
          sumX2 = (\<Sum>i\<leftarrow>[0..<length ys]. real i * real i);
          denominator = n * sumX2 - sumX * sumX
      in if denominator = 0 then 0 else (n * sumXY - sumX * sumY) / denominator)"

definition updateEWMA :: "PRFCController \<Rightarrow> real \<Rightarrow> PRFCController" where
  "updateEWMA c x =
     (if ewma_all c = 0 then c\<lparr>ewma_all := x\<rparr>
      else c\<lparr>ewma_all := alpha c * x + (1 - alpha c) * ewma_all c\<rparr>)"

definition updateSlope :: "PRFCController \<Rightarrow> PRFCController" where
  "updateSlope c =
     (if length (latencyWindow_all c) < 2 then c\<lparr>slope_all := 0\<rparr>
      else c\<lparr>slope_all := regressionSlope (map latencyMs (latencyWindow_all c))\<rparr>)"

definition registerPath :: "PRFCController \<Rightarrow> int \<Rightarrow> int list \<Rightarrow> real \<Rightarrow> PRFCController" where
  "registerPath c pathId ns initialLoad =
     c\<lparr>paths := mapSet pathId
          \<lparr>nodeIds = ns, ewma = 0, slope = 0, loadPercentage = initialLoad,
           status = Healthy, lastFailureTime = 0, lastRecoveryTime = 0, latencyWindow = []\<rparr>
          (paths c),
       optimalDistribution := (optimalDistribution c)(pathId \<mapsto> initialLoad)\<rparr>"

text \<open>
  The update of one path's metrics by a batch latency, at time \<open>t\<close> (the value of
  \<^verbatim>\<open>now()\<close>): window, EWMA, slope (left as it is while the window holds fewer than two
  samples), then the status.
\<close>

definition updateMetrics :: "PRFCController \<Rightarrow> real \<Rightarrow> real \<Rightarrow> PathMetrics \<Rightarrow> PathMetrics" where
  "updateMetrics c t x pm =
     (let win = pushWindow (windowSize c) \<lparr>ts = t, latencyMs = x\<rparr> (latencyWindow pm);
          e = (if ewma pm = 0 then x else alpha c * x + (1 - alpha c) * ewma pm);
          sl = (if length win \<ge> 2 then regressionSlope (map latencyMs win) else slope pm);
          pm1 = pm\<lparr>latencyWindow := win, ewma := e, slope := sl\<rparr>
      in if e > ewmaMaxMs c \<and> sl \<ge> slopeMinMsPerS c
         then pm1\<lparr>status := Degraded, lastFailureTime := t\<rparr>
         else if status pm1 = Recovering \<and> e < ewmaMaxMs c * 0.6
         then pm1\<lparr>status := Healthy\<rparr>
         else pm1)"

definition updatePathMetrics :: "PRFCController \<Rightarrow> real \<Rightarrow> int \<Rightarrow> real \<Rightarrow> PRFCController" where
  "updatePathMetrics c t pathId x =
     (case map_of (paths c) pathId of
        None \<Rightarrow> c
      | Some pm \<Rightarrow> c\<lparr>paths := mapSet pathId (updateMetrics c t x pm) (paths c)\<rparr>)"

definition addBatchLatency :: "PRFCController \<Rightarrow> real \<Rightarrow> real \<Rightarrow> int option \<Rightarrow> PRFCController" where
  "addBatchLatency c t x pathId =
     (let c1 = c\<lparr>latencyWindow_all :=
                  pushWindow (windowSize c) \<lparr>ts = t, latencyMs = x\<rparr> (latencyWindow_all c)\<rparr>;
          c2 = updateSlope (updateEWMA c1 x)
      in case pathId of
           None \<Rightarrow> c2
         | Some pid \<Rightarrow> updatePathMetrics c2 t pid x)"

definition updatePathLoad :: "PRFCController \<Rightarrow> int \<Rightarrow> real \<Rightarrow> PRFCController" where
  "updatePathLoad c pathId load =
     (case map_of (paths c) pathId of
        None \<Rightarrow> c
      | Some pm \<Rightarrow> c\<lparr>paths := mapSet pathId (pm\<lparr>loadPercentage := load\<rparr>) (paths c)\<rparr>)"

section \<open>PRFC controller: recovery and gradual revert\<close>

text \<open>One path of the loop of \<^verbatim>\<open>detectRecoveredPaths\<close>; the flag says that the path changed.\<close>

definition recoverPath :: "PRFCController \<Rightarrow> real \<Rightarrow> PathMetrics \<Rightarrow> bool \<times> PathMetrics" where
  "recoverPath c currentTime pm =
     (if status pm = Degraded then
        (if ewma pm < ewmaMaxMs c * 0.8 \<and> slope pm \<le> 0.5
            \<and> currentTime - lastFailureTime pm > RECOVERY_HOLD_TIME_MS
         then (True, pm\<lparr>status := Recovering, lastRecoveryTime := currentTime\<rparr>)
         else (False, pm))
      else if status pm = Recovering then
        (if ewma pm < ewmaMaxMs c * 0.6
            \<and> currentTime - lastRecoveryTime pm > STABILITY_TIME_MS
         then (True, pm\<lparr>status := Healthy\<rparr>)
         else (False, pm))
      else (False, pm))"

definition detectRecoveredPaths :: "PRFCController \<Rightarrow> real \<Rightarrow> int list \<times> PRFCController" where
  "detectRecoveredPaths c currentTime =
     (let stepped = map (\<lambda>(pathId, pm). (pathId, recoverPath c currentTime pm)) (paths c)
      in (map fst (filter (\<lambda>(pathId, changed, pm). changed) stepped),
          c\<lparr>paths := map (\<lambda>(pathId, changed, pm). (pathId, pm)) stepped\<rparr>))"

text \<open>
  A distribution is a JavaScript object from path id to load: an association list in
  the order in which the keys were added. The key of a number is its string; different
  numbers have different strings, so the list is keyed by the number itself.
\<close>

type_synonym distribution = "(int \<times> real) list"

text \<open>
  The order in which \<^verbatim>\<open>for \<dots> in\<close>, \<^verbatim>\<open>Object.entries\<close> and \<^verbatim>\<open>Object.values\<close> visit an object:
  first the keys that are array indices, the integers from 0 to \<open>2\<^sup>3\<^sup>2 - 2\<close>, in ascending
  order, then the other keys in the order in which they were added.
\<close>

definition isArrayIndex :: "int \<Rightarrow> bool" where
  "isArrayIndex k = (0 \<le> k \<and> k < 2 ^ 32 - 1)"

definition objectEntries :: "distribution \<Rightarrow> distribution" where
  "objectEntries d =
     sort_key fst (filter (\<lambda>(k, v). isArrayIndex k) d) @ filter (\<lambda>(k, v). \<not> isArrayIndex k) d"

text \<open>
  The number that a decimal numeral of the integer \<open>n\<close> denotes: the nearest number with
  53 significant bits, the even one of two that are equally near.
\<close>

function bitLength :: "int \<Rightarrow> nat" where
  "bitLength n = (if n \<le> 0 then 0 else Suc (bitLength (n div 2)))"
  by pat_completeness auto

termination bitLength
  by (relation "measure nat") auto

declare bitLength.simps [simp del]

definition roundToDouble :: "int \<Rightarrow> int" where
  "roundToDouble n =
     (if bitLength n \<le> 53 then n
      else (let u = 2 ^ (bitLength n - 53); q = n div u; r = n mod u
            in if 2 * r < u \<or> (2 * r = u \<and> even q) then q * u else (q + 1) * u))"

text \<open>The power of ten at the place of the first decimal digit of \<open>n\<close>.\<close>

function decimalScale :: "int \<Rightarrow> int" where
  "decimalScale n = (if n < 10 then 1 else 10 * decimalScale (n div 10))"
  by pat_completeness auto

termination decimalScale
  by (relation "measure nat") auto

declare decimalScale.simps [simp del]

text \<open>
  The first digit of the string of a number \<open>n\<close> from \<open>10\<^sup>2\<^sup>1\<close> on. The string holds the
  digits of the shortest decimal that denotes \<open>n\<close>. That decimal has one digit when the
  next multiple of the power of ten denotes \<open>n\<close>; otherwise it starts with the first
  digit of \<open>n\<close>.
\<close>

definition firstKeyDigit :: "int \<Rightarrow> int" where
  "firstKeyDigit n =
     (let p = decimalScale n; d = n div p
      in if roundToDouble ((d + 1) * p) = n then (if d = 9 then 1 else d + 1) else d)"

text \<open>
  \<^verbatim>\<open>parseInt(pathId)\<close>, for a key \<^verbatim>\<open>pathId\<close> that is the string of the number \<open>k\<close>. Below
  \<open>10\<^sup>2\<^sup>1\<close> the string is a decimal numeral that denotes \<open>k\<close>. From \<open>10\<^sup>2\<^sup>1\<close> on it is
  written with an exponent, as in \<^verbatim>\<open>1e+21\<close> or \<^verbatim>\<open>1.5e+21\<close>, and \<^verbatim>\<open>parseInt\<close> stops after the
  first digit.
\<close>

definition parseIntKey :: "int \<Rightarrow> int" where
  "parseIntKey k = (if \<bar>k\<bar> < 10 ^ 21 then k else sgn k * firstKeyDigit \<bar>k\<bar>)"

definition totalLoad :: "distribution \<Rightarrow> real" where
  "totalLoad d = sum_list (map snd d)"

text \<open>
  The re-normalisation that ends both the rebalance and every revert step: when the
  total is further than 0.01 from 100, every entry is multiplied by \<^verbatim>\<open>100 / total\<close>.
  With a total of zero that factor is \<^verbatim>\<open>Infinity\<close> and every entry becomes \<^verbatim>\<open>NaN\<close> or
  infinite; the model returns \<open>None\<close> then, since no entry is a number any more.
\<close>

definition renormalise :: "distribution \<Rightarrow> distribution option" where
  "renormalise d =
     (let totalDistribution = totalLoad d
      in if \<bar>totalDistribution - 100\<bar> > 0.01 then
           (if totalDistribution = 0 \<and> d \<noteq> [] then None
            else Some (map (\<lambda>(pathId, v). (pathId, v * (100 / totalDistribution))) d))
         else Some d)"

record TransitionStep =
  timestamp :: real
  step_distribution :: "distribution option"

record TransitionSchedule =
  steps :: "TransitionStep list"
  durationMs :: real
  startTime :: real

text \<open>
  \<^verbatim>\<open>targetDistribution[pathId]\<close>. Every registered path has an entry, written by
  \<^verbatim>\<open>registerPath\<close> together with the path; a missing entry would read \<^verbatim>\<open>undefined\<close>, which
  the model does not follow (it reads 0).
\<close>

definition targetOf :: "(int \<rightharpoonup> real) \<Rightarrow> int \<Rightarrow> real" where
  "targetOf target pathId = (case target pathId of Some v \<Rightarrow> v | None \<Rightarrow> 0)"

definition revertStep :: "distribution \<Rightarrow> (int \<rightharpoonup> real) \<Rightarrow> real \<Rightarrow> nat \<Rightarrow> TransitionStep" where
  "revertStep currentDistribution targetDistribution start i =
     (let numSteps = 5;
          stepDuration = TRANSITION_DURATION_MS / numSteps;
          progress = real i / numSteps;
          stepDistribution =
            map (\<lambda>(pathId, current).
                   (pathId, current + (targetOf targetDistribution pathId - current) * progress))
                (objectEntries currentDistribution)
      in \<lparr>timestamp = start + real i * stepDuration,
          step_distribution = renormalise stepDistribution\<rparr>)"

definition gradualRevert :: "PRFCController \<Rightarrow> real \<Rightarrow> TransitionSchedule option \<times> PRFCController" where
  "gradualRevert c t =
     (let c' = snd (detectRecoveredPaths c t);
          currentDistribution = map (\<lambda>(pathId, pm). (pathId, loadPercentage pm)) (paths c');
          allDegraded = list_all (\<lambda>(pathId, pm). status pm = Degraded) (paths c');
          targetDistribution =
            (if allDegraded
             then (\<lambda>pathId. if pathId \<in> set (map fst (paths c'))
                             then Some (100 / real (length (paths c')))
                             else optimalDistribution c' pathId)
             else optimalDistribution c');
          hasHealthyOrRecovering =
            list_ex (\<lambda>(pathId, pm). status pm = Healthy \<or> status pm = Recovering) (paths c');
          needsRevert =
            list_ex (\<lambda>(pathId, current). \<bar>current - targetOf targetDistribution pathId\<bar> > 1)
                    (objectEntries currentDistribution)
      in if \<not> needsRevert \<or> \<not> hasHealthyOrRecovering then (None, c')
         else (Some \<lparr>steps = map (revertStep currentDistribution targetDistribution t) [1..<6],
                     durationMs = TRANSITION_DURATION_MS,
                     startTime = t\<rparr>, c'))"

text \<open>
  The loop that hands every entry of a distribution to \<^verbatim>\<open>updatePathLoad\<close>: the entries in
  the order of the object's keys, each written to the path whose id \<^verbatim>\<open>parseInt\<close> reads
  from the key.
\<close>

definition writeLoads :: "PRFCController \<Rightarrow> distribution \<Rightarrow> PRFCController" where
  "writeLoads c entries =
     fold (\<lambda>(pathId, load) c'. updatePathLoad c' (parseIntKey pathId) load) entries c"

definition applyLoads :: "PRFCController \<Rightarrow> distribution \<Rightarrow> PRFCController" where
  "applyLoads c d = writeLoads c (objectEntries d)"

text \<open>
  \<^verbatim>\<open>applyTransitionStep\<close>. For a step whose entries are no numbers the source writes them
  into the loads all the same; a controller with such loads is outside the states of
  this model, and the result is \<open>None\<close>.
\<close>

definition applyTransitionStep :: "PRFCController \<Rightarrow> TransitionStep \<Rightarrow> PRFCController option" where
  "applyTransitionStep c step =
     (case step_distribution step of None \<Rightarrow> None | Some d \<Rightarrow> Some (applyLoads c d))"

section \<open>PRFC controller: rebalance\<close>

definition isDegrading :: "PRFCController \<Rightarrow> PathMetrics \<Rightarrow> bool" where
  "isDegrading c pm = (ewma pm > ewmaMaxMs c \<and> slope pm \<ge> slopeMinMsPerS c)"

definition detectDegradedPaths :: "PRFCController \<Rightarrow> real \<Rightarrow> int list \<times> PRFCController" where
  "detectDegradedPaths c t =
     (map fst (filter (\<lambda>(pathId, pm). isDegrading c pm) (paths c)),
      c\<lparr>paths := map (\<lambda>(pathId, pm).
                        (pathId, if isDegrading c pm \<and> status pm \<noteq> Degraded
                                 then pm\<lparr>status := Degraded, lastFailureTime := t\<rparr>
                                 else pm))
                     (paths c)\<rparr>)"

text \<open>
  What \<^verbatim>\<open>rebalancePaths\<close> returns: \<^verbatim>\<open>null\<close>, or the new distribution. The third case
  stands for a new distribution that the re-normalisation has scaled by \<^verbatim>\<open>100 / 0\<close>; its
  entries are no numbers, and the model does not follow the loads it writes.
\<close>

datatype rebalance_result = NoRebalance | NewDistribution distribution | NonFiniteDistribution

text \<open>The loads given to the paths that are not in \<^verbatim>\<open>degradedPathIds\<close>.\<close>

definition healthyShare :: "real \<Rightarrow> real \<Rightarrow> nat \<Rightarrow> real \<Rightarrow> real" where
  "healthyShare remainingLoad totalHealthyLoad healthyCount load =
     (if totalHealthyLoad > 0 then (load / totalHealthyLoad) * remainingLoad
      else remainingLoad / real healthyCount)"

text \<open>
  \<^verbatim>\<open>rebalancePaths\<close> at time \<open>t\<close>. The outer \<open>None\<close> is a path search that does not
  return. The source sorts the valid alternatives by score and then reads only whether
  there is one, so the sort is left out. The new distribution receives its keys in two
  loops over the registry: first the paths of \<^verbatim>\<open>degradedPathIds\<close>, then the others.
\<close>

definition rebalancePaths :: "PRFCController \<Rightarrow> GraphEngine \<Rightarrow> real \<Rightarrow> int \<Rightarrow> int
                                \<Rightarrow> (rebalance_result \<times> PRFCController) option" where
  "rebalancePaths c graphEngine t sourceNode destNode =
     (let (degradedPathIds, c1) = detectDegradedPaths c t
      in if degradedPathIds = [] then Some (NoRebalance, c1)
         else
           (let degradedPaths = List.map_filter
                                  (\<lambda>pathId. map_option nodeIds (map_of (paths c1) pathId))
                                  degradedPathIds;
                bottleneckNodes = findCommonNodes degradedPaths
            in case findKShortestPaths graphEngine sourceNode destNode 5 bottleneckNodes of
                 None \<Rightarrow> None
               | Some newPaths \<Rightarrow>
                   if newPaths = [] then Some (NoRebalance, c1)
                   else if filter (isValidPath graphEngine) newPaths = [] then Some (NoRebalance, c1)
                   else
                     (let pinned = map (\<lambda>(pathId, pm). (pathId, 5))
                                     (filter (\<lambda>(pathId, pm). pathId \<in> set degradedPathIds) (paths c1));
                          healthyPaths = filter (\<lambda>(pathId, pm). pathId \<notin> set degradedPathIds) (paths c1)
                      in if healthyPaths = []
                         then Some (NewDistribution
                                      (map (\<lambda>(pathId, v). (pathId, 100 / real (length degradedPathIds)))
                                           pinned), c1)
                         else
                           (let remainingLoad = 100 - real (length degradedPathIds) * 5;
                                totalHealthyLoad = (\<Sum>(pathId, pm)\<leftarrow>healthyPaths. loadPercentage pm);
                                newDistribution =
                                  pinned @
                                  map (\<lambda>(pathId, pm).
                                         (pathId,
                                          healthyShare remainingLoad totalHealthyLoad
                                            (length healthyPaths) (loadPercentage pm)))
                                      healthyPaths
                            in case renormalise newDistribution of
                                 None \<Rightarrow> Some (NonFiniteDistribution, c1)
                               | Some d \<Rightarrow> Some (NewDistribution d, applyLoads c1 d)))))"

section \<open>Scenarios\<close>

text \<open>Readers of one registered path, and the default configuration of the gateway.\<close>

definition statusOf :: "PRFCController \<Rightarrow> int \<Rightarrow> path_status option" where
  "statusOf c pathId = map_option status (map_of (paths c) pathId)"

definition ewmaOf :: "PRFCController \<Rightarrow> int \<Rightarrow> real option" where
  "ewmaOf c pathId = map_option ewma (map_of (paths c) pathId)"

definition loadOf :: "PRFCController \<Rightarrow> int \<Rightarrow> real option" where
  "loadOf c pathId = map_option loadPercentage (map_of (paths c) pathId)"

definition recoveryTimeOf :: "PRFCController \<Rightarrow> int \<Rightarrow> real option" where
  "recoveryTimeOf c pathId = map_option lastRecoveryTime (map_of (paths c) pathId)"

definition defaultController :: PRFCController where
  "defaultController = newController 10 0.3 100 5"

text \<open>
  One path is registered, degrades on the samples 100 and 200, sees three samples of
  10 ms, and is moved to \<open>Recovering\<close> by \<^verbatim>\<open>detectRecoveredPaths\<close> at time 22000.
\<close>

definition recoveringScenario :: PRFCController where
  "recoveringScenario =
     (let c0 = registerPath defaultController 0 [1, 9, 19] 50;
          c1 = addBatchLatency c0 0 100 (Some 0);
          c2 = addBatchLatency c1 1000 200 (Some 0);
          c3 = addBatchLatency c2 2000 10 (Some 0);
          c4 = addBatchLatency c3 3000 10 (Some 0);
          c5 = addBatchLatency c4 4000 10 (Some 0)
      in snd (detectRecoveredPaths c5 22000))"

text \<open>Two paths, registered with the loads 90 and 10, both degraded by the samples 100 and 200.\<close>

definition allDegradedScenario :: PRFCController where
  "allDegradedScenario =
     (let c0 = registerPath (registerPath defaultController 0 [1, 9, 19] 90) 1 [1, 10, 21] 10;
          c1 = addBatchLatency c0 0 100 (Some 0);
          c2 = addBatchLatency c1 1000 200 (Some 0);
          c3 = addBatchLatency c2 2000 100 (Some 1)
      in addBatchLatency c3 3000 200 (Some 1))"

text \<open>
  Two paths are registered, and the first has seen one sample, 100 ms; \<open>oneSamplePath\<close>
  is the state of the first path then.
\<close>

definition twoPathScenario :: PRFCController where
  "twoPathScenario =
     addBatchLatency
       (registerPath (registerPath defaultController 0 [1, 9, 19] 50) 1 [1, 10, 19] 50)
       0 100 (Some 0)"

definition oneSamplePath :: PathMetrics where
  "oneSamplePath =
     \<lparr>nodeIds = [1, 9, 19], ewma = 100, slope = 0, loadPercentage = 50, status = Healthy,
      lastFailureTime = 0, lastRecoveryTime = 0, latencyWindow = [\<lparr>ts = 0, latencyMs = 100\<rparr>]\<rparr>"

text \<open>Topologies: a node and a link with the attributes that no path search reads set to fixed values.\<close>

definition mkNode :: "int \<Rightarrow> tier \<Rightarrow> Node" where
  "mkNode i t = \<lparr>node_id = i, tier = t, physical_map = ''n'', quality = ''high'', node_utilization = 0\<rparr>"

definition mkLink :: "int \<Rightarrow> int \<Rightarrow> real \<Rightarrow> Link" where
  "mkLink a b d =
     \<lparr>link_u = a, link_v = b, bw_mbps = 100, delay_ms = d, jitter_ms = 1, loss_rate = 0,
      link_utilization = 0\<rparr>"

text \<open>A \<^verbatim>\<open>new GraphEngine()\<close>, and the engine after it has loaded a descriptor.\<close>

definition newGraphEngine :: GraphEngine where
  "newGraphEngine = \<lparr>nodes = [], links = [], adjacencyList = []\<rparr>"

definition loadedGraph :: "TopologyData \<Rightarrow> GraphEngine" where
  "loadedGraph td =
     (case loadTopology newGraphEngine (Some td) of Some (Inr g) \<Rightarrow> g | _ \<Rightarrow> newGraphEngine)"

text \<open>An edge node and a cloud node, and no link.\<close>

definition disconnectedTopology :: TopologyData where
  "disconnectedTopology =
     \<lparr>td_nodes = Some [Some (mkNode 1 Edge), Some (mkNode 2 Cloud)], td_links = Some []\<rparr>"

text \<open>The descriptor \<^verbatim>\<open>{"nodes": [null], "links": []}\<close>.\<close>

definition nullNodeTopology :: TopologyData where
  "nullNodeTopology = \<lparr>td_nodes = Some [None], td_links = Some []\<rparr>"

text \<open>The edge node has the id 0 and one link to the cloud node 1.\<close>

definition zeroSourceTopology :: TopologyData where
  "zeroSourceTopology =
     \<lparr>td_nodes = Some [Some (mkNode 0 Edge), Some (mkNode 1 Cloud)],
      td_links = Some [mkLink 0 1 5]\<rparr>"

text \<open>A line from the edge node 1 over the core nodes 0 and 5 to the cloud node 2.\<close>

definition zeroHopTopology :: TopologyData where
  "zeroHopTopology =
     \<lparr>td_nodes = Some [Some (mkNode 1 Edge), Some (mkNode 0 Core), Some (mkNode 5 Core),
                       Some (mkNode 2 Cloud)],
      td_links = Some [mkLink 1 0 5, mkLink 0 5 5, mkLink 5 2 5]\<rparr>"

section \<open>Quantities of the rebalance and of the revert\<close>

text \<open>The loads of the registered paths, and the loads recorded for them at registration.\<close>

definition currentLoads :: "PRFCController \<Rightarrow> distribution" where
  "currentLoads c = map (\<lambda>(pathId, pm). (pathId, loadPercentage pm)) (paths c)"

definition optimalLoads :: "PRFCController \<Rightarrow> distribution" where
  "optimalLoads c = map (\<lambda>(pathId, pm). (pathId, targetOf (optimalDistribution c) pathId)) (paths c)"

text \<open>
  Every registered path has an entry in \<^verbatim>\<open>optimalDistribution\<close>. \<^verbatim>\<open>registerPath\<close>, the only
  place that adds a path, writes the entry with it.
\<close>

definition optimalRecorded :: "PRFCController \<Rightarrow> bool" where
  "optimalRecorded c = list_all (\<lambda>(pathId, pm). optimalDistribution c pathId \<noteq> None) (paths c)"

text \<open>
  The paths that \<^verbatim>\<open>detectDegradedPaths\<close> returns, the set \<open>D\<close> of the rebalance: those whose
  EWMA and slope are beyond the thresholds when it is called. The other registered
  paths, and the load that they carry together.
\<close>

definition degradedIds :: "PRFCController \<Rightarrow> int list" where
  "degradedIds c = map fst (filter (\<lambda>(pathId, pm). isDegrading c pm) (paths c))"

definition healthyIds :: "PRFCController \<Rightarrow> int list" where
  "healthyIds c = filter (\<lambda>pathId. pathId \<notin> set (degradedIds c)) (map fst (paths c))"


text \<open>
  The weights that the rebalance computes from the loads \<open>cl\<close> of the registered paths
  when some path is not in \<open>D\<close>, before the re-normalisation.
\<close>

definition rebalancedLoads :: "int list \<Rightarrow> distribution \<Rightarrow> distribution" where
  "rebalancedLoads D cl =
     map (\<lambda>x. (fst x, 5)) (filter (\<lambda>x. fst x \<in> set D) cl) @
     map (\<lambda>x. (fst x, healthyShare (100 - real (length D) * 5)
                          (totalLoad (filter (\<lambda>y. fst y \<notin> set D) cl))
                          (length (filter (\<lambda>y. fst y \<notin> set D) cl)) (snd x)))
         (filter (\<lambda>x. fst x \<notin> set D) cl)"

text \<open>
  The node lists of the paths in \<open>D\<close>, and the alternative paths that the rebalance
  asks the graph engine for and finds valid.
\<close>

definition degradedNodeLists :: "PRFCController \<Rightarrow> int list list" where
  "degradedNodeLists c =
     List.map_filter (\<lambda>pathId. map_option nodeIds (map_of (paths c) pathId)) (degradedIds c)"

definition validAlternatives :: "PRFCController \<Rightarrow> GraphEngine \<Rightarrow> int \<Rightarrow> int \<Rightarrow> int list list" where
  "validAlternatives c g src dst =
     (case findKShortestPaths g src dst 5 (findCommonNodes (degradedNodeLists c)) of
        None \<Rightarrow> []
      | Some newPaths \<Rightarrow> filter (isValidPath g) newPaths)"

text \<open>
  Every path id is below \<open>10\<^sup>2\<^sup>1\<close> in magnitude, so that its key is a decimal numeral
  and \<^verbatim>\<open>parseInt\<close> reads the id back from it.
\<close>

definition plainIds :: "PRFCController \<Rightarrow> bool" where
  "plainIds c = list_all (\<lambda>(pathId, pm). \<bar>pathId\<bar> < 10 ^ 21) (paths c)"

text \<open>
  Three routes from the edge node 1 to the cloud node 19, over the core nodes 9, 10 and
  11, registered with the loads 50, 30 and 20. The first path degrades on the samples
  100 and 200.
\<close>

definition threeRouteTopology :: TopologyData where
  "threeRouteTopology =
     \<lparr>td_nodes = Some [Some (mkNode 1 Edge), Some (mkNode 9 Core), Some (mkNode 10 Core),
                       Some (mkNode 11 Core), Some (mkNode 19 Cloud)],
      td_links = Some [mkLink 1 9 5, mkLink 1 10 6, mkLink 1 11 7,
                       mkLink 9 19 5, mkLink 10 19 5, mkLink 11 19 5]\<rparr>"

definition rebalanceScenario :: PRFCController where
  "rebalanceScenario =
     (let c0 = registerPath defaultController 0 [1, 9, 19] 50;
          c1 = registerPath c0 1 [1, 10, 19] 30;
          c2 = registerPath c1 2 [1, 11, 19] 20;
          c3 = addBatchLatency c2 0 100 (Some 0)
      in addBatchLatency c3 1000 200 (Some 0))"


text \<open>The controller after the rebalance at time 2000, and the schedule of its revert at time 30000.\<close>

definition rebalancedScenario :: PRFCController where
  "rebalancedScenario =
     snd (the (rebalancePaths rebalanceScenario (loadedGraph threeRouteTopology) 2000 1 19))"

definition revertSchedule :: TransitionSchedule where
  "revertSchedule = the (fst (gradualRevert rebalancedScenario 30000))"

text \<open>
  Two paths registered with the load 0, so that the optimal distribution is 0 and 0,
  and then given the loads 60 and 40 by \<^verbatim>\<open>updatePathLoad\<close>.
\<close>

definition zeroOptimalScenario :: PRFCController where
  "zeroOptimalScenario =
     (let c0 = registerPath (registerPath defaultController 0 [1, 9, 19] 0) 1 [1, 10, 19] 0
      in updatePathLoad (updatePathLoad c0 0 60) 1 40)"


text \<open>Two routes with the loads 90 and 5, both degraded by the samples 100 and 200.\<close>

definition unevenDegradedScenario :: PRFCController where
  "unevenDegradedScenario =
     (let c0 = registerPath (registerPath defaultController 0 [1, 9, 19] 90) 1 [1, 10, 19] 5;
          c1 = addBatchLatency c0 0 100 (Some 0);
          c2 = addBatchLatency c1 1000 200 (Some 0);
          c3 = addBatchLatency c2 2000 100 (Some 1)
      in addBatchLatency c3 3000 200 (Some 1))"

text \<open>
  Two routes with the path ids 1 and \<open>10\<^sup>2\<^sup>1\<close> and the loads 50 and 50; the second path
  degrades on the samples 100 and 200.
\<close>

definition bigIdScenario :: PRFCController where
  "bigIdScenario =
     (let c0 = registerPath defaultController 1 [1, 9, 19] 50;
          c1 = registerPath c0 (10 ^ 21) [1, 10, 19] 50;
          c2 = addBatchLatency c1 0 100 (Some (10 ^ 21))
      in addBatchLatency c2 1000 200 (Some (10 ^ 21)))"

text \<open>
  A gradual revert is due: after the recovery transitions some path is \<open>Healthy\<close> or
  \<open>Recovering\<close>, and the load of some path is further than 1 from its optimal load.
\<close>

definition revertDue :: "PRFCController \<Rightarrow> real \<Rightarrow> bool" where
  "revertDue c t =
     (list_ex (\<lambda>(pathId, pm). status pm = Healthy \<or> status pm = Recovering)
              (paths (snd (detectRecoveredPaths c t)))
      \<and> list_ex (\<lambda>(pathId, load). \<bar>load - targetOf (optimalDistribution c) pathId\<bar> > 1)
                 (currentLoads c))"

section \<open>States of the path search\<close>

text \<open>
  The order in which the loop has visited the nodes: the position of the first occurrence
  in \<open>visited\<close>, which is the length of \<open>visited\<close> for a node that is not in it. In a
  well-formed state every predecessor was visited before the node that it leads to.
\<close>

definition rank :: "int list \<Rightarrow> int \<Rightarrow> nat" where
  "rank vs x = length (takeWhile (\<lambda>y. y \<noteq> x) vs)"

definition chain_ok :: "dijkstra_state \<Rightarrow> bool" where
  "chain_ok s = (\<forall>n p. previous s n = Some p \<longrightarrow> rank (visited s) p < rank (visited s) n)"

text \<open>A node is rooted when it is the source or has a recorded predecessor.\<close>

definition rooted :: "int \<Rightarrow> dijkstra_state \<Rightarrow> int \<Rightarrow> bool" where
  "rooted src s n = (n = src \<or> previous s n \<noteq> None)"

text \<open>No adjacency entry of the graph leads to the node id 0.\<close>

definition zeroFree :: "GraphEngine \<Rightarrow> bool" where
  "zeroFree g = list_all (\<lambda>(n, es). list_all (\<lambda>e. neighbor e \<noteq> 0) es) (adjacencyList g)"

text \<open>
  The states of a search from \<open>src\<close> in a graph without the node id 0: predecessors were
  visited earlier, every queued or visited node is rooted and is not 0, every node with a
  distance is rooted, the source has no predecessor, and the source is the first node
  that is visited.
\<close>

definition search_ok :: "int \<Rightarrow> dijkstra_state \<Rightarrow> bool" where
  "search_ok src s =
     (chain_ok s
      \<and> (\<forall>x \<in> set (priorityQueue s). rooted src s (snd x) \<and> snd x \<noteq> 0)
      \<and> (\<forall>n \<in> set (visited s). rooted src s n \<and> n \<noteq> 0)
      \<and> (\<forall>n. distances s n \<noteq> None \<longrightarrow> rooted src s n)
      \<and> previous s src = None
      \<and> (src \<in> set (visited s)
           \<or> (visited s = [] \<and> (\<forall>x \<in> set (priorityQueue s). snd x = src))))"

text \<open>The state in which \<^verbatim>\<open>findShortestPath\<close> enters its loop.\<close>

definition initialState :: "int \<Rightarrow> dijkstra_state" where
  "initialState src =
     \<lparr>distances = [src \<mapsto> 0], previous = Map.empty, visited = [], priorityQueue = [(0, src)]\<rparr>"

text \<open>
  Only the source, the destination and nodes outside \<^verbatim>\<open>excludeNodes\<close> are queued or
  visited.
\<close>

definition unexcluded :: "int set \<Rightarrow> int \<Rightarrow> int \<Rightarrow> dijkstra_state \<Rightarrow> bool" where
  "unexcluded ex src dst s =
     ((\<forall>x \<in> set (priorityQueue s). snd x = src \<or> snd x = dst \<or> snd x \<notin> ex)
      \<and> (\<forall>n \<in> set (visited s). n = src \<or> n = dst \<or> n \<notin> ex))"

text \<open>
  A returned sequence that is a path of the query: from the source to the destination,
  with inner nodes that are neither of the two and not excluded.
\<close>

definition properPath :: "int \<Rightarrow> int \<Rightarrow> int set \<Rightarrow> int list \<Rightarrow> bool" where
  "properPath src dst ex p =
     (p \<noteq> [] \<and> hd p = src \<and> last p = dst
      \<and> src \<notin> set (innerNodes p) \<and> dst \<notin> set (innerNodes p)
      \<and> set (innerNodes p) \<inter> ex = {})"

text \<open>In a built graph every neighbour is a node of the topology.\<close>

definition wired :: "GraphEngine \<Rightarrow> (int \<times> AdjacencyEntry list) list \<Rightarrow> bool" where
  "wired g adj = (\<forall>x \<in> set adj. \<forall>e \<in> set (snd x). hasNode g (neighbor e))"

text \<open>The inner nodes of the paths of a list are pairwise disjoint.\<close>

definition disjointInner :: "int list list \<Rightarrow> bool" where
  "disjointInner ps =
     (\<forall>i j. i < j \<and> j < length ps \<longrightarrow> set (innerNodes (ps ! i)) \<inter> set (innerNodes (ps ! j)) = {})"

section \<open>Properties of the graph engine\<close>

lemma rank_le_length: "rank vs x \<le> length vs"
  unfolding rank_def by (rule length_takeWhile_le)

lemma rank_member: "x \<in> set vs \<Longrightarrow> rank (vs @ [c]) x = rank vs x"
  unfolding rank_def by (induction vs) auto

lemma rank_not_member: "x \<notin> set vs \<Longrightarrow> rank vs x = length vs"
proof -
  assume "x \<notin> set vs"
  then have "\<forall>y\<in>set vs. y \<noteq> x" by auto
  then have "takeWhile (\<lambda>y. y \<noteq> x) vs = vs" by (simp only: takeWhile_eq_all_conv)
  then show ?thesis by (simp only: rank_def)
qed

lemma rank_append_mono: "rank vs x \<le> rank (vs @ [c]) x"
proof (cases "x \<in> set vs")
  case True
  then show ?thesis by (simp add: rank_member)
next
  case False
  then have "takeWhile (\<lambda>y. y \<noteq> x) (vs @ [c]) = vs @ takeWhile (\<lambda>y. y \<noteq> x) [c]"
    by (intro takeWhile_append2) auto
  then show ?thesis
    using rank_le_length [of vs x] by (simp add: rank_def)
qed

lemma rank_member_less: "x \<in> set vs \<Longrightarrow> rank vs x < length vs"
  unfolding rank_def by (induction vs) auto

lemma rank_less_member: "rank vs x < length vs \<Longrightarrow> x \<in> set vs"
  using rank_not_member [of x vs] by (cases "x \<in> set vs") simp_all

lemma chain_ok_visit:
  assumes "chain_ok s"
  shows "chain_ok (s\<lparr>priorityQueue := q, visited := visited s @ [c]\<rparr>)"
  unfolding chain_ok_def
proof (intro allI impI)
  fix n p
  assume "previous (s\<lparr>priorityQueue := q, visited := visited s @ [c]\<rparr>) n = Some p"
  then have lt: "rank (visited s) p < rank (visited s) n"
    using assms by (simp add: chain_ok_def)
  then have "rank (visited s) p < length (visited s)"
    using rank_le_length [of "visited s" n] by simp
  then have "p \<in> set (visited s)" by (rule rank_less_member)
  then have "rank (visited s @ [c]) p = rank (visited s) p" by (rule rank_member)
  with lt rank_append_mono [of "visited s" n c]
  show "rank (visited (s\<lparr>priorityQueue := q, visited := visited s @ [c]\<rparr>)) p
          < rank (visited (s\<lparr>priorityQueue := q, visited := visited s @ [c]\<rparr>)) n"
    by simp
qed

lemma chain_ok_pop: "chain_ok s \<Longrightarrow> chain_ok (s\<lparr>priorityQueue := q\<rparr>)"
  by (simp add: chain_ok_def)

lemma chain_ok_relax:
  assumes "chain_ok s" and "c \<in> set (visited s)"
  shows "chain_ok (relax ex dst d c e s)"
  using assms rank_member_less [of c "visited s"]
  by (auto simp: chain_ok_def relax_def Let_def rank_not_member)

lemma chain_ok_fold_relax:
  "chain_ok s \<Longrightarrow> c \<in> set (visited s) \<Longrightarrow> chain_ok (fold (relax ex dst d c) es s)"
  by (induction es arbitrary: s) (simp_all add: chain_ok_relax relax_visited)

lemma dijkstraLoop_empty:
  "sort_key fst (priorityQueue s) = [] \<Longrightarrow> dijkstraLoop g src dst ex s = s"
  by (subst dijkstraLoop.simps) (simp only: list.case)

lemma dijkstraLoop_seen:
  assumes "sort_key fst (priorityQueue s) = (d, c) # rest" and "c \<in> set (visited s)"
  shows "dijkstraLoop g src dst ex s = dijkstraLoop g src dst ex (s\<lparr>priorityQueue := rest\<rparr>)"
  by (subst dijkstraLoop.simps) (simp only: assms list.case prod.case if_True)

lemma dijkstraLoop_dst:
  assumes "sort_key fst (priorityQueue s) = (d, c) # rest" and "c \<notin> set (visited s)"
    and "c = dst"
  shows "dijkstraLoop g src dst ex s = s\<lparr>priorityQueue := rest, visited := visited s @ [c]\<rparr>"
  by (subst dijkstraLoop.simps)
    (simp only: assms(1) list.case prod.case if_not_P [OF assms(2)] Let_def if_P [OF assms(3)])

lemma dijkstraLoop_excluded:
  assumes "sort_key fst (priorityQueue s) = (d, c) # rest" and "c \<notin> set (visited s)"
    and "c \<noteq> dst" and "c \<in> ex \<and> c \<noteq> src \<and> c \<noteq> dst"
  shows "dijkstraLoop g src dst ex s
           = dijkstraLoop g src dst ex (s\<lparr>priorityQueue := rest, visited := visited s @ [c]\<rparr>)"
  by (subst dijkstraLoop.simps)
    (simp only: assms(1) list.case prod.case if_not_P [OF assms(2)] Let_def
       if_not_P [OF assms(3)] if_P [OF assms(4)])

lemma dijkstraLoop_relax:
  assumes "sort_key fst (priorityQueue s) = (d, c) # rest" and "c \<notin> set (visited s)"
    and "c \<noteq> dst" and "\<not> (c \<in> ex \<and> c \<noteq> src \<and> c \<noteq> dst)"
  shows "dijkstraLoop g src dst ex s
           = dijkstraLoop g src dst ex
               (fold (relax ex dst d c) (getNeighbors g c)
                  (s\<lparr>priorityQueue := rest, visited := visited s @ [c]\<rparr>))"
  by (subst dijkstraLoop.simps)
    (simp only: assms(1) list.case prod.case if_not_P [OF assms(2)] Let_def
       if_not_P [OF assms(3)] if_not_P [OF assms(4)])

text \<open>An invariant of the loop holds of its result.\<close>

lemma dijkstraLoop_invariant:
  assumes init: "P s"
    and seen: "\<And>s d c rest. P s \<Longrightarrow> sort_key fst (priorityQueue s) = (d, c) # rest
                 \<Longrightarrow> c \<in> set (visited s) \<Longrightarrow> P (s\<lparr>priorityQueue := rest\<rparr>)"
    and visit: "\<And>s d c rest. P s \<Longrightarrow> sort_key fst (priorityQueue s) = (d, c) # rest
                 \<Longrightarrow> c \<notin> set (visited s)
                 \<Longrightarrow> P (s\<lparr>priorityQueue := rest, visited := visited s @ [c]\<rparr>)"
    and relaxed: "\<And>s d c rest. P s \<Longrightarrow> sort_key fst (priorityQueue s) = (d, c) # rest
                 \<Longrightarrow> c \<notin> set (visited s) \<Longrightarrow> c \<noteq> dst
                 \<Longrightarrow> \<not> (c \<in> ex \<and> c \<noteq> src \<and> c \<noteq> dst)
                 \<Longrightarrow> P (fold (relax ex dst d c) (getNeighbors g c)
                          (s\<lparr>priorityQueue := rest, visited := visited s @ [c]\<rparr>))"
  shows "P (dijkstraLoop g src dst ex s)"
  using init relaxed
proof (induction g src dst ex s rule: dijkstraLoop.induct)
  case (1 g src dst ex s)
  show ?case
  proof (cases "sort_key fst (priorityQueue s)")
    case Nil
    then show ?thesis
      using "1.prems"(1) by (simp only: dijkstraLoop_empty)
  next
    case (Cons a rest)
    obtain d c where a: "a = (d, c)" by (cases a)
    have q: "sort_key fst (priorityQueue s) = (d, c) # rest"
      using Cons a by simp
    show ?thesis
    proof (cases "c \<in> set (visited s)")
      case True
      have "P (s\<lparr>priorityQueue := rest\<rparr>)"
        using "1.prems"(1) q True by (rule seen)
      then have "P (dijkstraLoop g src dst ex (s\<lparr>priorityQueue := rest\<rparr>))"
        using "1.prems"(2) by (rule "1.IH"(1) [OF Cons a [symmetric] True])
      then show ?thesis
        by (simp only: dijkstraLoop_seen [OF q True])
    next
      case False
      let ?s1 = "s\<lparr>priorityQueue := rest, visited := visited s @ [c]\<rparr>"
      have s1: "P ?s1" using "1.prems"(1) q False by (rule visit)
      show ?thesis
      proof (cases "c = dst")
        case True
        show ?thesis
          using s1 by (simp only: dijkstraLoop_dst [OF q False True])
      next
        case ndst: False
        show ?thesis
        proof (cases "c \<in> ex \<and> c \<noteq> src \<and> c \<noteq> dst")
          case True
          have "P (dijkstraLoop g src dst ex ?s1)"
            using s1 "1.prems"(2) by (rule "1.IH"(2) [OF Cons a [symmetric] False refl ndst True])
          then show ?thesis
            by (simp only: dijkstraLoop_excluded [OF q False ndst True])
        next
          case nex: False
          have "P (fold (relax ex dst d c) (getNeighbors g c) ?s1)"
            using "1.prems"(1) q False ndst nex by (rule "1.prems"(2))
          then have "P (dijkstraLoop g src dst ex
                          (fold (relax ex dst d c) (getNeighbors g c) ?s1))"
            using "1.prems"(2) by (rule "1.IH"(3) [OF Cons a [symmetric] False refl ndst nex])
          then show ?thesis
            by (simp only: dijkstraLoop_relax [OF q False ndst nex])
        qed
      qed
    qed
  qed
qed

lemma dijkstraLoop_chain_ok:
  assumes "chain_ok s"
  shows "chain_ok (dijkstraLoop g src dst ex s)"
  using assms
proof (rule dijkstraLoop_invariant)
  fix s d c rest
  assume "chain_ok s"
  then show "chain_ok (s\<lparr>priorityQueue := rest\<rparr>)" by (rule chain_ok_pop)
next
  fix s d c rest
  assume "chain_ok s"
  then show "chain_ok (s\<lparr>priorityQueue := rest, visited := visited s @ [c]\<rparr>)"
    by (rule chain_ok_visit)
next
  fix s d c rest
  assume "chain_ok s"
  then have "chain_ok (s\<lparr>priorityQueue := rest, visited := visited s @ [c]\<rparr>)"
    by (rule chain_ok_visit)
  then show "chain_ok (fold (relax ex dst d c) (getNeighbors g c)
                         (s\<lparr>priorityQueue := rest, visited := visited s @ [c]\<rparr>))"
    by (simp add: chain_ok_fold_relax)
qed

lemma reconstructPath_returns:
  assumes "chain_ok s"
  shows "reconstructPath (previous s) (Some n) acc \<noteq> None"
proof (induction "rank (visited s) n" arbitrary: n acc rule: less_induct)
  case less
  show ?case
  proof (cases "orNull (previous s n)")
    case None
    have "reconstructPath (previous s) None (n # acc) = Some (n # acc)"
      by (subst reconstructPath.simps) simp
    then show ?thesis
      using None by (subst reconstructPath.simps) simp
  next
    case (Some p)
    then have "previous s n = Some p"
      by (auto simp: orNull_def split: option.splits if_splits)
    then have "rank (visited s) p < rank (visited s) n"
      using assms by (simp add: chain_ok_def)
    then have "reconstructPath (previous s) (Some p) (n # acc) \<noteq> None"
      by (rule less.hyps)
    then show ?thesis
      using Some by (subst reconstructPath.simps) simp
  qed
qed

lemma findShortestPath_returns: "findShortestPath g src dst ex \<noteq> None"
proof -
  let ?s0 = "\<lparr>distances = [src \<mapsto> 0], previous = Map.empty, visited = [],
              priorityQueue = [(0, src)]\<rparr>"
  have "chain_ok ?s0" by (simp add: chain_ok_def)
  then have "chain_ok (dijkstraLoop g src dst ex ?s0)" by (rule dijkstraLoop_chain_ok)
  then show ?thesis
    using reconstructPath_returns [of "dijkstraLoop g src dst ex ?s0" dst "[]"]
    by (simp add: findShortestPath_def Let_def)
qed


lemma verifyConnectivity_returns: "verifyConnectivity g \<noteq> None"
  by (simp add: verifyConnectivity_def Let_def findShortestPath_returns
      split: list.splits option.splits)

lemma buildGraph_returns: "buildGraph g \<noteq> None"
  by (simp add: buildGraph_def Let_def verifyConnectivity_returns split: option.splits)

lemma buildGraph_total: "\<exists>g'. buildGraph g = Some g'"
  by (cases "buildGraph g") (simp_all add: buildGraph_returns)

lemma getNeighbors_zeroFree:
  assumes "zeroFree g" and "e \<in> set (getNeighbors g n)"
  shows "neighbor e \<noteq> 0"
proof (cases "map_of (adjacencyList g) n")
  case None
  then show ?thesis using assms(2) by (simp add: getNeighbors_def)
next
  case (Some es)
  then have "(n, es) \<in> set (adjacencyList g)" by (rule map_of_SomeD)
  moreover have "e \<in> set es" using assms(2) Some by (simp add: getNeighbors_def)
  ultimately show ?thesis
    using assms(1) by (force simp: zeroFree_def list_all_iff)
qed

lemma sorted_head_in_queue:
  "sort_key fst q = x # rest \<Longrightarrow> x \<in> set q \<and> set rest \<subseteq> set q"
proof -
  assume a: "sort_key fst q = x # rest"
  have "set (sort_key fst q) = set q" by simp
  with a show ?thesis by auto
qed

lemma search_ok_pop:
  assumes "search_ok src s" and "sort_key fst (priorityQueue s) = (d, c) # rest"
  shows "search_ok src (s\<lparr>priorityQueue := rest\<rparr>)"
proof -
  have "set rest \<subseteq> set (priorityQueue s)"
    using sorted_head_in_queue [OF assms(2)] by simp
  then show ?thesis
    using assms(1) chain_ok_pop [of s rest]
    by (auto simp: search_ok_def rooted_def)
qed

lemma search_ok_visit:
  assumes "search_ok src s" and "sort_key fst (priorityQueue s) = (d, c) # rest"
  shows "search_ok src (s\<lparr>priorityQueue := rest, visited := visited s @ [c]\<rparr>)
         \<and> src \<in> set (visited s @ [c])"
proof -
  have h: "(d, c) \<in> set (priorityQueue s)" and r: "set rest \<subseteq> set (priorityQueue s)"
    using sorted_head_in_queue [OF assms(2)] by simp_all
  have c: "rooted src s c \<and> c \<noteq> 0"
    using assms(1) h by (force simp: search_ok_def)
  have src: "src \<in> set (visited s @ [c])"
    using assms(1) h by (force simp: search_ok_def)
  have "chain_ok (s\<lparr>priorityQueue := rest, visited := visited s @ [c]\<rparr>)"
    using assms(1) by (simp add: search_ok_def chain_ok_visit)
  then show ?thesis
    using assms(1) r c src by (auto simp: search_ok_def rooted_def)
qed

lemma search_ok_relax:
  assumes "search_ok src s" and "c \<in> set (visited s)" and "src \<in> set (visited s)"
    and "neighbor e \<noteq> 0"
  shows "search_ok src (relax ex dst d c e s)"
proof -
  have "chain_ok (relax ex dst d c e s)"
    using assms(1,2) by (simp add: search_ok_def chain_ok_relax)
  then show ?thesis
    using assms by (auto simp: search_ok_def rooted_def relax_def Let_def)
qed

lemma search_ok_fold_relax:
  assumes "search_ok src s" and "c \<in> set (visited s)" and "src \<in> set (visited s)"
    and "\<And>e. e \<in> set es \<Longrightarrow> neighbor e \<noteq> 0"
  shows "search_ok src (fold (relax ex dst d c) es s)"
  using assms
proof (induction es arbitrary: s)
  case Nil
  then show ?case by simp
next
  case (Cons e es)
  have "search_ok src (relax ex dst d c e s)"
    using Cons.prems by (intro search_ok_relax) simp_all
  then show ?case
    using Cons.prems by (simp add: Cons.IH relax_visited)
qed

lemma dijkstraLoop_search_ok:
  assumes "search_ok src s" and "zeroFree g"
  shows "search_ok src (dijkstraLoop g src dst ex s)"
  using assms(1)
proof (rule dijkstraLoop_invariant)
  fix s d c rest
  assume "search_ok src s" and "sort_key fst (priorityQueue s) = (d, c) # rest"
  then show "search_ok src (s\<lparr>priorityQueue := rest\<rparr>)" by (rule search_ok_pop)
next
  fix s d c rest
  assume "search_ok src s" and "sort_key fst (priorityQueue s) = (d, c) # rest"
  then show "search_ok src (s\<lparr>priorityQueue := rest, visited := visited s @ [c]\<rparr>)"
    using search_ok_visit by blast
next
  fix s d c rest
  assume a: "search_ok src s" and q: "sort_key fst (priorityQueue s) = (d, c) # rest"
  let ?s1 = "s\<lparr>priorityQueue := rest, visited := visited s @ [c]\<rparr>"
  have "search_ok src ?s1" and "src \<in> set (visited ?s1)"
    using search_ok_visit [OF a q] by simp_all
  then show "search_ok src (fold (relax ex dst d c) (getNeighbors g c) ?s1)"
    using getNeighbors_zeroFree [OF assms(2)]
    by (intro search_ok_fold_relax) simp_all
qed

lemma previous_is_visited:
  assumes "chain_ok s" and "previous s n = Some p"
  shows "p \<in> set (visited s) \<and> rank (visited s) p < rank (visited s) n"
proof -
  have lt: "rank (visited s) p < rank (visited s) n"
    using assms by (simp add: chain_ok_def)
  then have "rank (visited s) p < length (visited s)"
    using rank_le_length [of "visited s" n] by simp
  then have "p \<in> set (visited s)" by (rule rank_less_member)
  with lt show ?thesis by simp
qed

text \<open>The reconstruction from a node always ends with that node and what was collected before.\<close>

lemma reconstructPath_suffix:
  assumes "chain_ok s"
  shows "\<exists>pre. reconstructPath (previous s) (Some n) acc = Some (pre @ n # acc)"
proof (induction "rank (visited s) n" arbitrary: n acc rule: less_induct)
  case less
  show ?case
  proof (cases "orNull (previous s n)")
    case None
    have "reconstructPath (previous s) None (n # acc) = Some (n # acc)"
      by (subst reconstructPath.simps) simp
    then have "reconstructPath (previous s) (Some n) acc = Some ([] @ n # acc)"
      using None by (subst reconstructPath.simps) simp
    then show ?thesis by blast
  next
    case (Some p)
    then have "previous s n = Some p"
      by (auto simp: orNull_def split: option.splits if_splits)
    then have "rank (visited s) p < rank (visited s) n"
      using assms by (simp add: chain_ok_def)
    then obtain pre where "reconstructPath (previous s) (Some p) (n # acc) = Some (pre @ p # n # acc)"
      using less.hyps by blast
    then have "reconstructPath (previous s) (Some n) acc = Some ((pre @ [p]) @ n # acc)"
      using Some by (subst reconstructPath.simps) simp
    then show ?thesis by blast
  qed
qed

text \<open>
  Without the node id 0 the reconstruction walks back to the source: what it puts in
  front of a node starts at the source and holds nodes visited before that node, each
  once, the source only in first place.
\<close>

lemma reconstructPath_chain:
  assumes "search_ok src s"
  shows "rooted src s n \<Longrightarrow>
         \<exists>pre. reconstructPath (previous s) (Some n) acc = Some (pre @ n # acc)
               \<and> (if n = src then pre = [] else pre \<noteq> [] \<and> hd pre = src)
               \<and> (\<forall>m \<in> set pre. m \<in> set (visited s) \<and> rank (visited s) m < rank (visited s) n)
               \<and> src \<notin> set (tl pre) \<and> distinct pre"
proof (induction "rank (visited s) n" arbitrary: n acc rule: less_induct)
  case less
  have ch: "chain_ok s" and psrc: "previous s src = None"
    and vis: "\<And>m. m \<in> set (visited s) \<Longrightarrow> rooted src s m \<and> m \<noteq> 0"
    using assms by (simp_all add: search_ok_def)
  show ?case
  proof (cases "previous s n")
    case None
    then have n: "n = src" using less.prems by (simp add: rooted_def)
    have "reconstructPath (previous s) None (n # acc) = Some (n # acc)"
      by (subst reconstructPath.simps) simp
    then have "reconstructPath (previous s) (Some n) acc = Some ([] @ n # acc)"
      using None by (subst reconstructPath.simps) (simp add: orNull_def)
    then show ?thesis using n by auto
  next
    case (Some p)
    have pv: "p \<in> set (visited s)" and lt: "rank (visited s) p < rank (visited s) n"
      using previous_is_visited [OF ch Some] by simp_all
    have p0: "p \<noteq> 0" and pr: "rooted src s p" using vis [OF pv] by simp_all
    have nsrc: "n \<noteq> src" using Some psrc by auto
    from less.hyps [OF lt pr, of "n # acc"] obtain pre
      where r: "reconstructPath (previous s) (Some p) (n # acc) = Some (pre @ p # n # acc)"
        and h: "if p = src then pre = [] else pre \<noteq> [] \<and> hd pre = src"
        and m: "\<forall>m \<in> set pre. m \<in> set (visited s) \<and> rank (visited s) m < rank (visited s) p"
        and t: "src \<notin> set (tl pre)" and d: "distinct pre"
      by blast
    have "reconstructPath (previous s) (Some n) acc = Some ((pre @ [p]) @ n # acc)"
      using Some p0 r by (subst reconstructPath.simps) (simp add: orNull_def)
    moreover have "pre @ [p] \<noteq> [] \<and> hd (pre @ [p]) = src"
      using h by (cases pre) (auto split: if_splits)
    moreover have "\<forall>m \<in> set (pre @ [p]). m \<in> set (visited s)
                       \<and> rank (visited s) m < rank (visited s) n"
      using m pv lt by auto
    moreover have "src \<notin> set (tl (pre @ [p]))"
      using h t by (cases pre) (auto split: if_splits)
    moreover have "distinct (pre @ [p])"
      using d m by auto
    ultimately show ?thesis using nsrc by auto
  qed
qed

lemma initial_search_ok: "src \<noteq> 0 \<Longrightarrow> search_ok src (initialState src)"
  by (simp add: search_ok_def initialState_def chain_ok_def rooted_def)

lemma findShortestPath_unfold:
  "findShortestPath g src dst ex = Some (Some p) \<Longrightarrow>
   hasNode g src \<and> hasNode g dst
   \<and> distances (dijkstraLoop g src dst ex (initialState src)) dst \<noteq> None
   \<and> reconstructPath (previous (dijkstraLoop g src dst ex (initialState src))) (Some dst) [] = Some p"
  by (auto simp: findShortestPath_def initialState_def Let_def split: if_splits)

lemma findShortestPath_ends_at_dst:
  assumes "findShortestPath g src dst ex = Some (Some p)"
  shows "p \<noteq> [] \<and> last p = dst"
proof -
  let ?s = "dijkstraLoop g src dst ex (initialState src)"
  have "chain_ok (initialState src)" by (simp add: chain_ok_def initialState_def)
  then have "chain_ok ?s" by (rule dijkstraLoop_chain_ok)
  then obtain pre where "reconstructPath (previous ?s) (Some dst) [] = Some (pre @ dst # [])"
    using reconstructPath_suffix by blast
  then show ?thesis
    using findShortestPath_unfold [OF assms] by auto
qed

lemma findShortestPath_starts_at_src:
  assumes "findShortestPath g src dst ex = Some (Some p)" and "zeroFree g" and "src \<noteq> 0"
  shows "hd p = src"
proof -
  let ?s = "dijkstraLoop g src dst ex (initialState src)"
  have ok: "search_ok src ?s"
    using initial_search_ok [OF assms(3)] assms(2) by (rule dijkstraLoop_search_ok)
  have u: "distances ?s dst \<noteq> None"
    and r: "reconstructPath (previous ?s) (Some dst) [] = Some p"
    using findShortestPath_unfold [OF assms(1)] by simp_all
  have "rooted src ?s dst" using ok u by (simp add: search_ok_def)
  from reconstructPath_chain [OF ok this, of "[]"] r
  obtain pre where "p = pre @ [dst]" and "if dst = src then pre = [] else pre \<noteq> [] \<and> hd pre = src"
    by auto
  then show ?thesis by (cases pre) (auto split: if_splits)
qed

lemma unexcluded_relax: "unexcluded ex src dst s \<Longrightarrow> unexcluded ex src dst (relax ex dst d c e s)"
  by (auto simp: unexcluded_def relax_def Let_def)

lemma unexcluded_fold_relax:
  "unexcluded ex src dst s \<Longrightarrow> unexcluded ex src dst (fold (relax ex dst d c) es s)"
  by (induction es arbitrary: s) (simp_all add: unexcluded_relax)

lemma unexcluded_visit:
  assumes "unexcluded ex src dst s" and "sort_key fst (priorityQueue s) = (d, c) # rest"
  shows "unexcluded ex src dst (s\<lparr>priorityQueue := rest, visited := visited s @ [c]\<rparr>)"
proof -
  have "(d, c) \<in> set (priorityQueue s)" and "set rest \<subseteq> set (priorityQueue s)"
    using sorted_head_in_queue [OF assms(2)] by simp_all
  then show ?thesis
    using assms(1) by (force simp: unexcluded_def)
qed

lemma unexcluded_pop:
  assumes "unexcluded ex src dst s" and "sort_key fst (priorityQueue s) = (d, c) # rest"
  shows "unexcluded ex src dst (s\<lparr>priorityQueue := rest\<rparr>)"
proof -
  have "set rest \<subseteq> set (priorityQueue s)"
    using sorted_head_in_queue [OF assms(2)] by simp
  then show ?thesis
    using assms(1) by (auto simp: unexcluded_def)
qed

lemma dijkstraLoop_unexcluded:
  assumes "unexcluded ex src dst s"
  shows "unexcluded ex src dst (dijkstraLoop g src dst ex s)"
  using assms
proof (rule dijkstraLoop_invariant)
  fix s d c rest
  assume "unexcluded ex src dst s" and "sort_key fst (priorityQueue s) = (d, c) # rest"
  then show "unexcluded ex src dst (s\<lparr>priorityQueue := rest\<rparr>)" by (rule unexcluded_pop)
next
  fix s d c rest
  assume "unexcluded ex src dst s" and "sort_key fst (priorityQueue s) = (d, c) # rest"
  then show "unexcluded ex src dst (s\<lparr>priorityQueue := rest, visited := visited s @ [c]\<rparr>)"
    by (rule unexcluded_visit)
next
  fix s d c rest
  assume "unexcluded ex src dst s" and "sort_key fst (priorityQueue s) = (d, c) # rest"
  then have "unexcluded ex src dst (s\<lparr>priorityQueue := rest, visited := visited s @ [c]\<rparr>)"
    by (rule unexcluded_visit)
  then show "unexcluded ex src dst (fold (relax ex dst d c) (getNeighbors g c)
                                    (s\<lparr>priorityQueue := rest, visited := visited s @ [c]\<rparr>))"
    by (rule unexcluded_fold_relax)
qed

lemma findShortestPath_properPath:
  assumes "findShortestPath g src dst ex = Some (Some p)" and "zeroFree g" and "src \<noteq> 0"
  shows "properPath src dst ex p"
proof -
  let ?s = "dijkstraLoop g src dst ex (initialState src)"
  have ok: "search_ok src ?s"
    using initial_search_ok [OF assms(3)] assms(2) by (rule dijkstraLoop_search_ok)
  have "unexcluded ex src dst (initialState src)"
    by (simp add: unexcluded_def initialState_def)
  then have un: "unexcluded ex src dst ?s" by (rule dijkstraLoop_unexcluded)
  have u: "distances ?s dst \<noteq> None"
    and r: "reconstructPath (previous ?s) (Some dst) [] = Some p"
    using findShortestPath_unfold [OF assms(1)] by simp_all
  have "rooted src ?s dst" using ok u by (simp add: search_ok_def)
  from reconstructPath_chain [OF ok this, of "[]"] r
  obtain pre where p: "p = pre @ [dst]"
    and h: "if dst = src then pre = [] else pre \<noteq> [] \<and> hd pre = src"
    and m: "\<forall>m \<in> set pre. m \<in> set (visited ?s) \<and> rank (visited ?s) m < rank (visited ?s) dst"
    and t: "src \<notin> set (tl pre)"
    by auto
  show ?thesis
  proof (cases "dst = src")
    case True
    then show ?thesis using p h by (simp add: properPath_def innerNodes_def)
  next
    case False
    then have ne: "pre \<noteq> []" and hd: "hd pre = src" using h by simp_all
    have inner: "innerNodes p = tl pre"
      using ne p by (cases pre) (simp_all add: innerNodes_def)
    have sub: "set (tl pre) \<subseteq> set pre" using ne by (cases pre) auto
    have nd: "dst \<notin> set (tl pre)" using m sub by auto
    have "set (tl pre) \<inter> ex = {}"
    proof (rule ccontr)
      assume "set (tl pre) \<inter> ex \<noteq> {}"
      then obtain x where x: "x \<in> set (tl pre)" "x \<in> ex" by auto
      then have "x \<in> set (visited ?s)" using m sub by auto
      then have "x = src \<or> x = dst \<or> x \<notin> ex" using un by (simp add: unexcluded_def)
      with x t nd show False by auto
    qed
    then show ?thesis
      using p ne hd t nd inner by (simp add: properPath_def hd_append)
  qed
qed

lemma properPath_nodes:
  assumes "properPath src dst ex p"
  shows "set p - {src, dst} = set (innerNodes p)"
proof (cases "tl p")
  case Nil
  then have "p = [src]" using assms by (cases p) (auto simp: properPath_def)
  then show ?thesis by (simp add: innerNodes_def)
next
  case (Cons a as)
  then have t: "tl p \<noteq> []" by simp
  have "p = hd p # butlast (tl p) @ [last (tl p)]"
    using assms t by (cases p) (auto simp: properPath_def)
  moreover have "last (tl p) = dst"
    using assms t by (cases p) (auto simp: properPath_def)
  moreover have "hd p = src" using assms by (simp add: properPath_def)
  ultimately have "p = src # innerNodes p @ [dst]" by (simp add: innerNodes_def)
  then have "set p = set (src # innerNodes p @ [dst])" by (rule arg_cong)
  then have "set p = insert src (set (innerNodes p) \<union> {dst})" by simp
  then show ?thesis
    using assms by (auto simp: properPath_def)
qed

lemma wired_pushEntry:
  "wired g adj \<Longrightarrow> hasNode g (neighbor e) \<Longrightarrow> wired g (pushEntry n e adj)"
  by (induction n e adj rule: pushEntry.induct) (auto simp: wired_def)

lemma wired_addLink: "wired g adj \<Longrightarrow> wired g (addLink g l adj)"
  by (simp add: addLink_def wired_pushEntry)

lemma wired_fold_addLink: "wired g adj \<Longrightarrow> wired g (fold (addLink g) ls adj)"
  by (induction ls arbitrary: adj) (simp_all add: wired_addLink)

lemma buildGraph_wired:
  assumes "buildGraph g = Some g'"
  shows "wired g' (adjacencyList g')"
proof -
  have g': "g' = g\<lparr>adjacencyList := fold (addLink g) (links g) (map (\<lambda>(n, _). (n, [])) (nodes g))\<rparr>"
    using assms by (auto simp: buildGraph_def Let_def split: option.splits)
  have "wired g (map (\<lambda>(n, _). (n, [])) (nodes g))"
    by (auto simp: wired_def)
  then have "wired g (fold (addLink g) (links g) (map (\<lambda>(n, _). (n, [])) (nodes g)))"
    by (rule wired_fold_addLink)
  then show ?thesis
    by (simp add: g' wired_def hasNode_def)
qed

lemma loadTopology_wired:
  assumes "loadTopology g0 parsed = Some (Inr g)"
  shows "wired g (adjacencyList g)"
proof -
  obtain g1 where "buildGraph g1 = Some g"
    using assms by (auto simp: loadTopology_def split: option.splits)
  then show ?thesis by (rule buildGraph_wired)
qed

lemma those_null_entry: "(those xs = None) = (None \<in> set xs)"
  by (induction xs) (auto split: option.splits)

lemma wired_zeroFree:
  assumes "wired g (adjacencyList g)" and "\<not> hasNode g 0"
  shows "zeroFree g"
  using assms by (force simp: wired_def zeroFree_def list_all_iff)

lemma disjointInner_snoc:
  assumes "disjointInner ps" and "\<And>q. q \<in> set ps \<Longrightarrow> set (innerNodes q) \<inter> set (innerNodes p) = {}"
  shows "disjointInner (ps @ [p])"
  unfolding disjointInner_def
proof (intro allI impI)
  fix i j
  assume a: "i < j \<and> j < length (ps @ [p])"
  show "set (innerNodes ((ps @ [p]) ! i)) \<inter> set (innerNodes ((ps @ [p]) ! j)) = {}"
  proof (cases "j < length ps")
    case True
    then show ?thesis
      using a assms(1) by (simp add: disjointInner_def nth_append)
  next
    case False
    then have j: "j = length ps" using a by simp
    then have i: "i < length ps" using a by simp
    then have "ps ! i \<in> set ps" by simp
    then have "set (innerNodes (ps ! i)) \<inter> set (innerNodes p) = {}" by (rule assms(2))
    then show ?thesis
      using i j by (simp add: nth_append)
  qed
qed

lemma properPath_weaken: "properPath src dst ex p \<Longrightarrow> ex' \<subseteq> ex \<Longrightarrow> properPath src dst ex' p"
  by (auto simp: properPath_def)

lemma kPathsLoop_proper:
  assumes "zeroFree g" and "src \<noteq> 0"
  shows "kPathsLoop g src dst init i found used = Some ps
         \<Longrightarrow> \<forall>p \<in> set found. properPath src dst init p
         \<Longrightarrow> (\<forall>p \<in> set found. set (innerNodes p) \<subseteq> used)
         \<Longrightarrow> disjointInner found
         \<Longrightarrow> (\<forall>p \<in> set ps. properPath src dst init p) \<and> disjointInner ps"
proof (induction i arbitrary: found used)
  case 0
  then show ?case by simp
next
  case (Suc i)
  let ?cur = "init \<union> Set.filter (\<lambda>n. n \<noteq> src \<and> n \<noteq> dst) used"
  show ?case
  proof (cases "findShortestPath g src dst ?cur")
    case None
    then show ?thesis using Suc.prems(1) by (simp add: Let_def)
  next
    case (Some r)
    show ?thesis
    proof (cases r)
      case None
      then have "ps = found" using Suc.prems(1) Some by (simp add: Let_def)
      then show ?thesis using Suc.prems by simp
    next
      case (Some p)
      have f: "findShortestPath g src dst ?cur = Some (Some p)"
        using \<open>findShortestPath g src dst ?cur = Some r\<close> Some by simp
      have pp: "properPath src dst ?cur p"
        using f assms by (rule findShortestPath_properPath)
      then have p1: "properPath src dst init p"
        by (rule properPath_weaken) simp
      have fresh: "set (innerNodes p) \<inter> used = {}"
      proof (rule ccontr)
        assume "set (innerNodes p) \<inter> used \<noteq> {}"
        then obtain m where m: "m \<in> set (innerNodes p)" "m \<in> used" by auto
        then have "m \<noteq> src" "m \<noteq> dst" using pp by (auto simp: properPath_def)
        with m have "m \<in> ?cur" by simp
        with m pp show False by (auto simp: properPath_def)
      qed
      have rec: "kPathsLoop g src dst init i (found @ [p]) (used \<union> set (innerNodes p)) = Some ps"
        using Suc.prems(1) f by (simp add: Let_def)
      show ?thesis
      proof (rule Suc.IH [OF rec])
        show "\<forall>q \<in> set (found @ [p]). properPath src dst init q"
          using Suc.prems(2) p1 by simp
        show "\<forall>q \<in> set (found @ [p]). set (innerNodes q) \<subseteq> used \<union> set (innerNodes p)"
          using Suc.prems(3) by auto
        show "disjointInner (found @ [p])"
        proof (rule disjointInner_snoc [OF Suc.prems(4)])
          fix q assume "q \<in> set found"
          then have "set (innerNodes q) \<subseteq> used" using Suc.prems(3) by simp
          with fresh show "set (innerNodes q) \<inter> set (innerNodes p) = {}" by auto
        qed
      qed
    qed
  qed
qed

lemma kPathsLoop_returns: "kPathsLoop g src dst init i found used \<noteq> None"
proof (induction i arbitrary: found used)
  case 0
  then show ?case by simp
next
  case (Suc i)
  show ?case
    using findShortestPath_returns [of g src dst
        "init \<union> Set.filter (\<lambda>n. n \<noteq> src \<and> n \<noteq> dst) used"] Suc.IH
    by (simp add: Let_def split: option.splits)
qed

lemma findKShortestPaths_returns: "findKShortestPaths g src dst k ex \<noteq> None"
  using kPathsLoop_returns [of g src dst "set ex" "nat k" "[]" "{}"]
  unfolding findKShortestPaths_def by (simp split: if_splits)

lemma findKShortestPaths_proper:
  assumes "findKShortestPaths g src dst k ex = Some ps" and "zeroFree g" and "\<not> hasNode g 0"
  shows "(\<forall>p \<in> set ps. properPath src dst (set ex) p) \<and> disjointInner ps"
proof (cases "\<not> hasNode g src \<or> \<not> hasNode g dst \<or> k \<le> 0")
  case True
  then have "ps = []" using assms(1) unfolding findKShortestPaths_def by (auto split: if_splits)
  then show ?thesis by (simp add: disjointInner_def)
next
  case False
  then have "src \<noteq> 0" using assms(3) by auto
  moreover have "kPathsLoop g src dst (set ex) (nat k) [] {} = Some ps"
    using False assms(1) unfolding findKShortestPaths_def by (simp split: if_splits)
  ultimately show ?thesis
    using assms(2) by (intro kPathsLoop_proper [of g src dst "set ex" "nat k" "[]" "{}" ps])
      (simp_all add: disjointInner_def)
qed

text \<open>Whatever the node ids, the reconstruction puts only visited nodes in front of a node.\<close>

lemma reconstructPath_visited:
  assumes "chain_ok s"
  shows "\<exists>pre. reconstructPath (previous s) (Some n) acc = Some (pre @ n # acc)
               \<and> set pre \<subseteq> set (visited s)"
proof (induction "rank (visited s) n" arbitrary: n acc rule: less_induct)
  case less
  show ?case
  proof (cases "orNull (previous s n)")
    case None
    have "reconstructPath (previous s) None (n # acc) = Some (n # acc)"
      by (subst reconstructPath.simps) simp
    then have "reconstructPath (previous s) (Some n) acc = Some ([] @ n # acc)"
      using None by (subst reconstructPath.simps) simp
    then show ?thesis by force
  next
    case (Some p)
    then have "previous s n = Some p"
      by (auto simp: orNull_def split: option.splits if_splits)
    then have pv: "p \<in> set (visited s)" and "rank (visited s) p < rank (visited s) n"
      using previous_is_visited [OF assms] by simp_all
    then obtain pre where pre: "reconstructPath (previous s) (Some p) (n # acc) = Some (pre @ p # n # acc)"
      "set pre \<subseteq> set (visited s)"
      using less.hyps by blast
    then have "reconstructPath (previous s) (Some n) acc = Some ((pre @ [p]) @ n # acc)"
      using Some by (subst reconstructPath.simps) simp
    moreover have "set (pre @ [p]) \<subseteq> set (visited s)" using pre(2) pv by simp
    ultimately show ?thesis by blast
  qed
qed

lemma initial_unexcluded: "unexcluded ex src dst (initialState src)"
  by (simp add: unexcluded_def initialState_def)

lemma findShortestPath_avoids_excluded:
  assumes "findShortestPath g src dst ex = Some (Some p)"
  shows "(set p - {src, dst}) \<inter> ex = {}"
proof -
  let ?s = "dijkstraLoop g src dst ex (initialState src)"
  have r: "reconstructPath (previous ?s) (Some dst) [] = Some p"
    using assms by (simp add: findShortestPath_unfold split: if_splits)
  have "chain_ok (initialState src)" by (simp add: chain_ok_def initialState_def)
  then have "chain_ok ?s" by (rule dijkstraLoop_chain_ok)
  then obtain pre where "reconstructPath (previous ?s) (Some dst) [] = Some (pre @ dst # [])"
    and sub: "set pre \<subseteq> set (visited ?s)"
    using reconstructPath_visited [of ?s dst "[]"] by blast
  with r have p: "p = pre @ [dst]" by simp
  have un: "unexcluded ex src dst ?s"
    using initial_unexcluded by (rule dijkstraLoop_unexcluded)
  show ?thesis
  proof (rule ccontr)
    assume "(set p - {src, dst}) \<inter> ex \<noteq> {}"
    then obtain x where x: "x \<in> set p" "x \<noteq> src" "x \<noteq> dst" "x \<in> ex" by auto
    then have "x \<in> set (visited ?s)" using p sub by auto
    then have "x = src \<or> x = dst \<or> x \<notin> ex" using un by (simp add: unexcluded_def)
    with x show False by simp
  qed
qed

lemma kPathsLoop_avoids_excluded:
  "kPathsLoop g src dst init i found used = Some ps
   \<Longrightarrow> \<forall>p \<in> set found. (set p - {src, dst}) \<inter> init = {}
   \<Longrightarrow> \<forall>p \<in> set ps. (set p - {src, dst}) \<inter> init = {}"
proof (induction i arbitrary: found used)
  case 0
  then show ?case by simp
next
  case (Suc i)
  let ?cur = "init \<union> Set.filter (\<lambda>n. n \<noteq> src \<and> n \<noteq> dst) used"
  show ?case
  proof (cases "findShortestPath g src dst ?cur")
    case None
    then show ?thesis using Suc.prems(1) by (simp add: Let_def)
  next
    case (Some r)
    show ?thesis
    proof (cases r)
      case None
      then have "ps = found" using Suc.prems(1) Some by (simp add: Let_def)
      then show ?thesis using Suc.prems by simp
    next
      case (Some p)
      have f: "findShortestPath g src dst ?cur = Some (Some p)"
        using \<open>findShortestPath g src dst ?cur = Some r\<close> Some by simp
      then have "(set p - {src, dst}) \<inter> ?cur = {}" by (rule findShortestPath_avoids_excluded)
      then have p1: "(set p - {src, dst}) \<inter> init = {}" by blast
      have rec: "kPathsLoop g src dst init i (found @ [p]) (used \<union> set (innerNodes p)) = Some ps"
        using Suc.prems(1) f by (simp add: Let_def)
      show ?thesis
        using Suc.IH [OF rec] Suc.prems(2) p1 by simp
    qed
  qed
qed

lemma findKShortestPaths_avoids_excluded:
  assumes "findKShortestPaths g src dst k ex = Some ps" and "p \<in> set ps"
  shows "(set p - {src, dst}) \<inter> set ex = {}"
proof (cases "\<not> hasNode g src \<or> \<not> hasNode g dst \<or> k \<le> 0")
  case True
  then have "ps = []" using assms(1) unfolding findKShortestPaths_def by (auto split: if_splits)
  then show ?thesis using assms(2) by simp
next
  case False
  then have "kPathsLoop g src dst (set ex) (nat k) [] {} = Some ps"
    using assms(1) unfolding findKShortestPaths_def by (simp split: if_splits)
  then have "\<forall>p \<in> set ps. (set p - {src, dst}) \<inter> set ex = {}"
    by (rule kPathsLoop_avoids_excluded) simp
  then show ?thesis using assms(2) by simp
qed

lemma loaded_zeroFree:
  assumes "loadTopology g0 parsed = Some (Inr g)" and "\<not> hasNode g 0"
  shows "zeroFree g"
  using loadTopology_wired [OF assms(1)] assms(2) by (rule wired_zeroFree)

text \<open>
  Claim C5, as amended. Topology loading always returns, and it fails exactly when the
  file cannot be read or parsed, when its \<^verbatim>\<open>nodes\<close> or \<^verbatim>\<open>links\<close> member is missing or no
  array, or when an entry of \<^verbatim>\<open>nodes\<close> is \<^verbatim>\<open>null\<close>. A descriptor with both arrays and no
  \<^verbatim>\<open>null\<close> node is accepted, whatever its connectivity: the check tests one pair of
  nodes, writes a message and raises nothing.
\<close>

theorem loadTopology_fails_only_on_malformed_input:
  "(loadTopology g parsed \<noteq> None)
   \<and> ((\<exists>e. loadTopology g parsed = Some (Inl e))
        \<longleftrightarrow> (case parsed of
               None \<Rightarrow> True
             | Some td \<Rightarrow> (case td_nodes td of
                            None \<Rightarrow> True
                          | Some ns \<Rightarrow> td_links td = None \<or> None \<in> set ns)))
   \<and> (parsed = None \<longrightarrow> loadTopology g parsed = Some (Inl CannotReadOrParse))
   \<and> (parsed = Some td \<and> td_nodes td = None
        \<longrightarrow> loadTopology g parsed = Some (Inl InvalidNodesArray))
   \<and> (parsed = Some td \<and> td_nodes td = Some ns \<and> td_links td = None
        \<longrightarrow> loadTopology g parsed = Some (Inl InvalidLinksArray))
   \<and> (parsed = Some td \<and> td_nodes td = Some ns \<and> td_links td = Some ls \<and> None \<in> set ns
        \<longrightarrow> loadTopology g parsed = Some (Inl NullNodeEntry))
   \<and> (parsed = Some td \<and> td_nodes td = Some ns \<and> td_links td = Some ls \<and> None \<notin> set ns
        \<longrightarrow> (\<exists>g'. loadTopology g parsed = Some (Inr g')))"
proof -
  have 1: "loadTopology g parsed \<noteq> None"
    using buildGraph_total by (auto simp: loadTopology_def split: option.splits)
  have 2: "(\<exists>e. loadTopology g parsed = Some (Inl e))
        \<longleftrightarrow> (case parsed of
               None \<Rightarrow> True
             | Some td \<Rightarrow> (case td_nodes td of
                            None \<Rightarrow> True
                          | Some ns \<Rightarrow> td_links td = None \<or> None \<in> set ns))"
    using buildGraph_total
    by (auto simp: loadTopology_def those_null_entry [symmetric] split: option.splits)
  have 3: "parsed = None \<longrightarrow> loadTopology g parsed = Some (Inl CannotReadOrParse)"
    by (simp add: loadTopology_def)
  have 4: "parsed = Some td \<and> td_nodes td = None
        \<longrightarrow> loadTopology g parsed = Some (Inl InvalidNodesArray)"
    by (simp add: loadTopology_def)
  have 5: "parsed = Some td \<and> td_nodes td = Some ns \<and> td_links td = None
        \<longrightarrow> loadTopology g parsed = Some (Inl InvalidLinksArray)"
    by (simp add: loadTopology_def)
  have 6: "parsed = Some td \<and> td_nodes td = Some ns \<and> td_links td = Some ls \<and> None \<in> set ns
        \<longrightarrow> loadTopology g parsed = Some (Inl NullNodeEntry)"
    using those_null_entry [of ns] by (auto simp: loadTopology_def)
  have 7: "parsed = Some td \<and> td_nodes td = Some ns \<and> td_links td = Some ls \<and> None \<notin> set ns
        \<longrightarrow> (\<exists>g'. loadTopology g parsed = Some (Inr g'))"
  proof (intro impI, elim conjE)
    assume a: "parsed = Some td" "td_nodes td = Some ns" "td_links td = Some ls" "None \<notin> set ns"
    then obtain objs where o: "those ns = Some objs"
      using those_null_entry [of ns] by (cases "those ns") auto
    obtain g' where "buildGraph
        (g\<lparr>nodes := fold (\<lambda>n m. mapSet (node_id n) (n\<lparr>node_utilization := 0\<rparr>) m) objs [],
           links := map (\<lambda>l. l\<lparr>link_utilization := 0\<rparr>) ls\<rparr>) = Some g'"
      using buildGraph_total by blast
    then show "\<exists>g'. loadTopology g parsed = Some (Inr g')"
      using a o by (simp add: loadTopology_def)
  qed
  from 1 2 3 4 5 6 7 show ?thesis by blast
qed

theorem loadTopology_fails_only_on_malformed_input_witness:
  "td_nodes disconnectedTopology = Some [Some (mkNode 1 Edge), Some (mkNode 2 Cloud)]
   \<and> td_links disconnectedTopology = Some []
   \<and> None \<notin> set [Some (mkNode 1 Edge), Some (mkNode 2 Cloud)]
   \<and> (\<exists>g'. loadTopology newGraphEngine (Some disconnectedTopology) = Some (Inr g'))
   \<and> td_nodes nullNodeTopology = Some [None] \<and> td_links nullNodeTopology = Some []
   \<and> None \<in> set [None :: Node option]
   \<and> loadTopology newGraphEngine (Some nullNodeTopology) = Some (Inl NullNodeEntry)"
proof -
  have n: "td_nodes disconnectedTopology = Some [Some (mkNode 1 Edge), Some (mkNode 2 Cloud)]"
    and l: "td_links disconnectedTopology = Some []"
    by (simp_all add: disconnectedTopology_def)
  have m: "None \<notin> set [Some (mkNode 1 Edge), Some (mkNode 2 Cloud)]" by simp
  have a: "\<exists>g'. loadTopology newGraphEngine (Some disconnectedTopology) = Some (Inr g')"
    using loadTopology_fails_only_on_malformed_input [of newGraphEngine "Some disconnectedTopology"
        disconnectedTopology "[Some (mkNode 1 Edge), Some (mkNode 2 Cloud)]" "[]"] n l m
    by blast
  have n': "td_nodes nullNodeTopology = Some [None]" and l': "td_links nullNodeTopology = Some []"
    by (simp_all add: nullNodeTopology_def)
  have m': "None \<in> set [None :: Node option]" by simp
  have b: "loadTopology newGraphEngine (Some nullNodeTopology) = Some (Inl NullNodeEntry)"
    using loadTopology_fails_only_on_malformed_input [of newGraphEngine "Some nullNodeTopology"
        nullNodeTopology "[None]" "[]"] n' l' m'
    by blast
  from n l m a n' l' m' b show ?thesis by blast
qed

text \<open>
  Claim C5, as stated, fails: the topology with one edge node, one cloud node and no
  link is loaded, although no path leads from the edge node to the cloud node.
\<close>

theorem loadTopology_disconnected_counterexample:
  "loadTopology newGraphEngine (Some disconnectedTopology) = Some (Inr (loadedGraph disconnectedTopology))
   \<and> map fst (nodes (loadedGraph disconnectedTopology)) = [1, 2]
   \<and> findShortestPath (loadedGraph disconnectedTopology) 1 2 {} = Some None
   \<and> verifyConnectivity (loadedGraph disconnectedTopology) = Some MayNotBeConnected"
  by code_simp

text \<open>
  Claim C10 fails for the node id 0, and only for it. The search always returns, and a
  returned sequence always ends with the destination. In a loaded topology without the
  node id 0 it also starts with the source. With the node id 0 it need not: in the
  topology with the edge node 0 linked to the cloud node 1, the path from 0 to 1 is
  returned as \<open>[1]\<close>, and on the line 1, 0, 5, 2 the path from 1 to 2 is returned as
  \<open>[5, 2]\<close>.
\<close>

theorem findShortestPath_loses_node_zero:
  "findShortestPath g src dst ex \<noteq> None
   \<and> (findShortestPath g src dst ex = Some (Some p) \<longrightarrow> p \<noteq> [] \<and> last p = dst)
   \<and> (loadTopology g0 parsed = Some (Inr g) \<and> \<not> hasNode g 0
        \<and> findShortestPath g src dst ex = Some (Some p)
      \<longrightarrow> hd p = src)
   \<and> loadTopology newGraphEngine (Some zeroSourceTopology) = Some (Inr (loadedGraph zeroSourceTopology))
   \<and> findShortestPath (loadedGraph zeroSourceTopology) 0 1 {} = Some (Some [1])
   \<and> hd [1] \<noteq> (0 :: int)
   \<and> loadTopology newGraphEngine (Some zeroHopTopology) = Some (Inr (loadedGraph zeroHopTopology))
   \<and> findShortestPath (loadedGraph zeroHopTopology) 1 2 {} = Some (Some [5, 2])
   \<and> hd [5, 2] \<noteq> (1 :: int)"
proof -
  have r: "findShortestPath g src dst ex \<noteq> None" by (rule findShortestPath_returns)
  have e: "findShortestPath g src dst ex = Some (Some p) \<longrightarrow> p \<noteq> [] \<and> last p = dst"
    using findShortestPath_ends_at_dst by blast
  have s: "loadTopology g0 parsed = Some (Inr g) \<and> \<not> hasNode g 0
             \<and> findShortestPath g src dst ex = Some (Some p)
           \<longrightarrow> hd p = src"
  proof (intro impI, elim conjE)
    assume l: "loadTopology g0 parsed = Some (Inr g)" and n: "\<not> hasNode g 0"
      and f: "findShortestPath g src dst ex = Some (Some p)"
    have z: "zeroFree g" using l n by (rule loaded_zeroFree)
    have "hasNode g src" using f by (auto simp: findShortestPath_def split: if_splits)
    then have "src \<noteq> 0" using n by auto
    with f z show "hd p = src" by (rule findShortestPath_starts_at_src)
  qed
  have c: "loadTopology newGraphEngine (Some zeroSourceTopology) = Some (Inr (loadedGraph zeroSourceTopology))
   \<and> findShortestPath (loadedGraph zeroSourceTopology) 0 1 {} = Some (Some [1])
   \<and> hd [1] \<noteq> (0 :: int)
   \<and> loadTopology newGraphEngine (Some zeroHopTopology) = Some (Inr (loadedGraph zeroHopTopology))
   \<and> findShortestPath (loadedGraph zeroHopTopology) 1 2 {} = Some (Some [5, 2])
   \<and> hd [5, 2] \<noteq> (1 :: int)"
    by code_simp
  from r e s c show ?thesis by blast
qed

theorem findShortestPath_loses_node_zero_witness:
  "loadTopology newGraphEngine (Some threeRouteTopology) = Some (Inr (loadedGraph threeRouteTopology))
   \<and> \<not> hasNode (loadedGraph threeRouteTopology) 0
   \<and> findShortestPath (loadedGraph threeRouteTopology) 1 19 {} = Some (Some [1, 9, 19])
   \<and> hd [1, 9, 19] = (1 :: int) \<and> last [1, 9, 19] = (19 :: int)"
proof -
  have l: "loadTopology newGraphEngine (Some threeRouteTopology)
             = Some (Inr (loadedGraph threeRouteTopology))"
    by code_simp
  have n: "\<not> hasNode (loadedGraph threeRouteTopology) 0" by code_simp
  have f: "findShortestPath (loadedGraph threeRouteTopology) 1 19 {} = Some (Some [1, 9, 19])"
    by code_simp
  have "hd [1, 9, 19] = (1 :: int) \<and> last [1, 9, 19] = (19 :: int)"
    using findShortestPath_loses_node_zero [of "loadedGraph threeRouteTopology" 1 19 "{}"
        "[1, 9, 19]" newGraphEngine "Some threeRouteTopology"] l n f
    by blast
  with l n f show ?thesis by blast
qed

text \<open>
  Claim C8 fails for the node id 0, and only for it. The query always returns, and no
  returned path holds a node of \<^verbatim>\<open>excludeNodes\<close> other than the source and the
  destination. In a loaded topology without the node id 0 two returned paths share no
  node but the source and the destination. With the node id 0 they may: on the line
  1, 0, 5, 2 the query for two paths from 1 to 2 returns \<open>[5, 2]\<close> twice, and node 5,
  which is neither the source nor the destination, lies on both returned paths.
\<close>

theorem findKShortestPaths_shares_node_after_zero:
  "findKShortestPaths g src dst k excludeNodes \<noteq> None
   \<and> (findKShortestPaths g src dst k excludeNodes = Some ps \<and> p \<in> set ps
        \<longrightarrow> (set p - {src, dst}) \<inter> set excludeNodes = {})
   \<and> (loadTopology g0 parsed = Some (Inr g) \<and> \<not> hasNode g 0
        \<and> findKShortestPaths g src dst k excludeNodes = Some ps \<and> i < j \<and> j < length ps
      \<longrightarrow> (set (ps ! i) - {src, dst}) \<inter> (set (ps ! j) - {src, dst}) = {})
   \<and> loadTopology newGraphEngine (Some zeroHopTopology) = Some (Inr (loadedGraph zeroHopTopology))
   \<and> findKShortestPaths (loadedGraph zeroHopTopology) 1 2 2 [] = Some [[5, 2], [5, 2]]
   \<and> 5 \<in> (set [5, 2] - {1, 2}) \<inter> (set [5, 2] - {1, 2 :: int})"
proof -
  have r: "findKShortestPaths g src dst k excludeNodes \<noteq> None"
    by (rule findKShortestPaths_returns)
  have x: "findKShortestPaths g src dst k excludeNodes = Some ps \<and> p \<in> set ps
             \<longrightarrow> (set p - {src, dst}) \<inter> set excludeNodes = {}"
    using findKShortestPaths_avoids_excluded by blast
  have d: "loadTopology g0 parsed = Some (Inr g) \<and> \<not> hasNode g 0
             \<and> findKShortestPaths g src dst k excludeNodes = Some ps \<and> i < j \<and> j < length ps
           \<longrightarrow> (set (ps ! i) - {src, dst}) \<inter> (set (ps ! j) - {src, dst}) = {}"
  proof (intro impI, elim conjE)
    assume l: "loadTopology g0 parsed = Some (Inr g)" and n: "\<not> hasNode g 0"
      and f: "findKShortestPaths g src dst k excludeNodes = Some ps"
      and ij: "i < j" "j < length ps"
    have z: "zeroFree g" using l n by (rule loaded_zeroFree)
    have pr: "(\<forall>p \<in> set ps. properPath src dst (set excludeNodes) p) \<and> disjointInner ps"
      using f z n by (rule findKShortestPaths_proper)
    have "ps ! i \<in> set ps" "ps ! j \<in> set ps" using ij by simp_all
    then have "set (ps ! i) - {src, dst} = set (innerNodes (ps ! i))"
      "set (ps ! j) - {src, dst} = set (innerNodes (ps ! j))"
      using pr properPath_nodes by blast+
    moreover have "set (innerNodes (ps ! i)) \<inter> set (innerNodes (ps ! j)) = {}"
      using pr ij by (simp add: disjointInner_def)
    ultimately show "(set (ps ! i) - {src, dst}) \<inter> (set (ps ! j) - {src, dst}) = {}" by simp
  qed
  have c: "loadTopology newGraphEngine (Some zeroHopTopology) = Some (Inr (loadedGraph zeroHopTopology))
   \<and> findKShortestPaths (loadedGraph zeroHopTopology) 1 2 2 [] = Some [[5, 2], [5, 2]]
   \<and> 5 \<in> (set [5, 2] - {1, 2}) \<inter> (set [5, 2] - {1, 2 :: int})"
    by code_simp
  from r x d c show ?thesis by blast
qed

theorem findKShortestPaths_shares_node_after_zero_witness:
  "loadTopology newGraphEngine (Some threeRouteTopology) = Some (Inr (loadedGraph threeRouteTopology))
   \<and> \<not> hasNode (loadedGraph threeRouteTopology) 0
   \<and> findKShortestPaths (loadedGraph threeRouteTopology) 1 19 2 [10]
       = Some [[1, 9, 19], [1, 11, 19]]
   \<and> [1, 11, 19] \<in> set [[1, 9, 19], [1, 11, 19 :: int]]
   \<and> (0 :: nat) < 1 \<and> (1 :: nat) < length [[1, 9, 19], [1, 11, 19 :: int]]
   \<and> (set [1, 11, 19] - {1, 19}) \<inter> set [10 :: int] = {}
   \<and> (set [1, 9, 19] - {1, 19}) \<inter> (set [1, 11, 19] - {1, 19 :: int}) = {}"
proof -
  let ?ps = "[[1, 9, 19], [1, 11, 19 :: int]]"
  have l: "loadTopology newGraphEngine (Some threeRouteTopology)
             = Some (Inr (loadedGraph threeRouteTopology))"
    by code_simp
  have n: "\<not> hasNode (loadedGraph threeRouteTopology) 0" by code_simp
  have f: "findKShortestPaths (loadedGraph threeRouteTopology) 1 19 2 [10] = Some ?ps"
    by code_simp
  have m: "[1, 11, 19] \<in> set ?ps" by simp
  have ij: "(0 :: nat) < 1" "(1 :: nat) < length ?ps" by simp_all
  have "(set [1, 11, 19] - {1, 19}) \<inter> set [10 :: int] = {}
        \<and> (set (?ps ! 0) - {1, 19}) \<inter> (set (?ps ! 1) - {1, 19}) = {}"
    using findKShortestPaths_shares_node_after_zero [of "loadedGraph threeRouteTopology" 1 19 2
        "[10]" ?ps "[1, 11, 19]" newGraphEngine "Some threeRouteTopology" 0 1] l n f m ij
    by blast
  then have "(set [1, 11, 19] - {1, 19}) \<inter> set [10 :: int] = {}
        \<and> (set [1, 9, 19] - {1, 19}) \<inter> (set [1, 11, 19] - {1, 19 :: int}) = {}"
    by simp
  with l n f m ij show ?thesis by blast
qed

section \<open>Properties of the bottleneck identification\<close>

lemma set_uniqueNodes [simp]: "set (uniqueNodes xs) = set xs"
  by (induction xs) auto

lemma distinct_uniqueNodes [simp]: "distinct (uniqueNodes xs)"
  by (induction xs) (auto simp: distinct_removeAll)

lemma fst_bumpCount: "set (map fst (bumpCount n m)) = insert n (set (map fst m))"
  by (induction n m rule: bumpCount.induct) auto

lemma distinct_bumpCount: "distinct (map fst m) \<Longrightarrow> distinct (map fst (bumpCount n m))"
proof (induction n m rule: bumpCount.induct)
  case (1 n)
  then show ?case by simp
next
  case (2 n k c m)
  then show ?case
    using fst_bumpCount [of n m] by (auto simp del: set_map)
qed

lemma countOf_bumpCount:
  "countOf (bumpCount n m) x = (if x = n then countOf m n + 1 else countOf m x)"
  by (induction n m rule: bumpCount.induct) (auto simp: countOf_def)

lemma distinct_fold_bumpCount:
  "distinct (map fst m) \<Longrightarrow> distinct (map fst (fold bumpCount ns m))"
  by (induction ns arbitrary: m) (auto simp: distinct_bumpCount)

lemma countOf_fold_bumpCount:
  "distinct ns \<Longrightarrow>
   countOf (fold bumpCount ns m) x = (if x \<in> set ns then countOf m x + 1 else countOf m x)"
proof (induction ns arbitrary: m)
  case Nil
  then show ?case by simp
next
  case (Cons n ns)
  then show ?case by (auto simp: countOf_bumpCount)
qed

lemma countOf_fold_paths:
  "countOf (fold (\<lambda>path m. fold bumpCount (uniqueNodes path) m) ps m) x
     = countOf m x + occurrences ps x"
proof (induction ps arbitrary: m)
  case Nil
  then show ?case by (simp add: occurrences_def)
next
  case (Cons p ps)
  then show ?case
    by (simp add: countOf_fold_bumpCount occurrences_def)
qed

lemma distinct_fold_paths:
  "distinct (map fst m) \<Longrightarrow>
   distinct (map fst (fold (\<lambda>path m. fold bumpCount (uniqueNodes path) m) ps m))"
  by (induction ps arbitrary: m) (auto simp: distinct_fold_bumpCount)

lemma countOf_countNodes: "countOf (countNodes ps) x = occurrences ps x"
  using countOf_fold_paths [of ps "[]" x] by (simp add: countNodes_def countOf_def)

lemma distinct_countNodes: "distinct (map fst (countNodes ps))"
  using distinct_fold_paths [of "[]" ps] by (simp add: countNodes_def)

lemma countOf_entry:
  "distinct (map fst m) \<Longrightarrow> (n, c) \<in> set m \<Longrightarrow> countOf m n = c"
  by (simp add: countOf_def)

lemma countOf_pos_entry:
  "0 < countOf m n \<Longrightarrow> (n, countOf m n) \<in> set m"
  by (auto simp: countOf_def split: option.splits dest: map_of_SomeD)

lemma common_members:
  assumes "distinct (map fst m)" and "0 < t"
  shows "n \<in> set (map fst (filter (\<lambda>(nodeId, count). count \<ge> t) m)) \<longleftrightarrow> t \<le> countOf m n"
proof
  assume "n \<in> set (map fst (filter (\<lambda>(nodeId, count). count \<ge> t) m))"
  then obtain c where "(n, c) \<in> set m" and "t \<le> c" by auto
  with assms(1) show "t \<le> countOf m n" by (simp add: countOf_entry)
next
  assume le: "t \<le> countOf m n"
  with assms(2) have "0 < countOf m n" by simp
  then have "(n, countOf m n) \<in> set m" by (rule countOf_pos_entry)
  with le show "n \<in> set (map fst (filter (\<lambda>(nodeId, count). count \<ge> t) m))"
    by force
qed

lemma findCommonNodes_members:
  assumes "2 \<le> length ps"
  shows "n \<in> set (findCommonNodes ps)
           \<longleftrightarrow> commonThreshold (length ps) \<le> occurrences ps n"
proof -
  obtain p q rest where ps: "ps = p # q # rest"
    using assms by (cases ps; cases "tl ps") auto
  have "0 < commonThreshold (length ps)" by (simp add: commonThreshold_def)
  then show ?thesis
    using common_members [of "countNodes ps" "commonThreshold (length ps)" n]
    by (simp add: findCommonNodes_def ps countOf_countNodes distinct_countNodes Let_def
        del: set_map)
qed

text \<open>
  Claim C1, as amended. For two or more degraded paths, \<^verbatim>\<open>findCommonNodes\<close> returns
  exactly the nodes that lie on at least \<open>max 2 \<lceil>|D| / 2\<rceil>\<close> of the paths, where every
  node of a path counts, its source and its destination included: the endpoints are
  not removed. For the paths \<open>[1, 9, 19]\<close> and \<open>[1, 9, 20]\<close> it returns \<open>[1, 9]\<close>.
\<close>

theorem findCommonNodes_counts_every_node:
  "(2 \<le> length ps \<longrightarrow>
      (n \<in> set (findCommonNodes ps)
         \<longleftrightarrow> max 2 ((length ps + 1) div 2) \<le> length (filter (\<lambda>p. n \<in> set p) ps)))
   \<and> findCommonNodes [[1, 9, 19], [1, 9, 20]] = [1, 9]"
proof
  show "2 \<le> length ps \<longrightarrow>
      (n \<in> set (findCommonNodes ps)
         \<longleftrightarrow> max 2 ((length ps + 1) div 2) \<le> length (filter (\<lambda>p. n \<in> set p) ps))"
    using findCommonNodes_members [of ps n]
    by (simp add: commonThreshold_def occurrences_def)
  show "findCommonNodes [[1, 9, 19], [1, 9, 20]] = [1, 9]"
    by code_simp
qed

theorem findCommonNodes_counts_every_node_witness:
  "2 \<le> length [[1, 9, 19], [1, 9, 20 :: int]]
   \<and> 1 \<in> set (findCommonNodes [[1, 9, 19], [1, 9, 20]])
   \<and> 19 \<notin> set (findCommonNodes [[1, 9, 19], [1, 9, 20]])"
  using findCommonNodes_counts_every_node [of "[[1, 9, 19], [1, 9, 20]]" 1]
    findCommonNodes_counts_every_node [of "[[1, 9, 19], [1, 9, 20]]" 19]
  by simp

text \<open>
  Claim C1, as stated, fails on its own example: the answer is not \<open>[9]\<close>, and it holds
  node 1, the source of both paths.
\<close>

theorem findCommonNodes_endpoint_counterexample:
  "findCommonNodes [[1, 9, 19], [1, 9, 20]] \<noteq> [9]
   \<and> hd [1, 9, 19] \<in> set (findCommonNodes [[1, 9, 19], [1, 9, 20]])"
  by code_simp

text \<open>
  Claim C2, as amended. For a single path, \<^verbatim>\<open>findCommonNodes\<close> returns that path as it is,
  with every node of it: the case is answered before any count or threshold.
\<close>

theorem findCommonNodes_single_path: "findCommonNodes [p] = p"
  by (simp add: findCommonNodes_def)

text \<open>Claim C2, as stated, fails: the result for the single path \<open>[1, 9, 19]\<close> is not empty.\<close>

theorem findCommonNodes_single_counterexample:
  "findCommonNodes [[1, 9, 19]] = [1, 9, 19] \<and> findCommonNodes [[1, 9, 19]] \<noteq> []"
  by code_simp

section \<open>Properties of the telemetry and of the recovery\<close>

lemma map_of_mapSet: "map_of (mapSet k v m) = (map_of m)(k \<mapsto> v)"
  by (induction k v m rule: mapSet.induct) auto

lemma fst_mapSet_present:
  "map_of m k \<noteq> None \<Longrightarrow> map fst (mapSet k v m) = map fst m"
  by (induction k v m rule: mapSet.induct) auto

text \<open>
  Claim C3 fails in \<^verbatim>\<open>updatePathMetrics\<close>. The path of the scenario is \<open>Recovering\<close>
  since time 22000; a batch of 10 ms at time 22001 brings its EWMA below
  \<open>0.6 * ewmaMaxMs\<close> and the path is \<open>Healthy\<close>, one millisecond into a stability time of
  15000 ms. \<^verbatim>\<open>detectRecoveredPaths\<close> leaves the same path \<open>Recovering\<close> at that time.
\<close>

theorem updatePathMetrics_skips_stability_time:
  "statusOf recoveringScenario 0 = Some Recovering
   \<and> recoveryTimeOf recoveringScenario 0 = Some 22000
   \<and> statusOf (addBatchLatency recoveringScenario 22001 10 (Some 0)) 0 = Some Healthy
   \<and> 22001 - 22000 < STABILITY_TIME_MS
   \<and> statusOf (snd (detectRecoveredPaths recoveringScenario 22001)) 0 = Some Recovering"
  by code_simp

lemma all_degraded_none_healthy:
  "list_all (\<lambda>(pathId, pm). status pm = Degraded) ps \<Longrightarrow>
   \<not> list_ex (\<lambda>(pathId, pm). status pm = Healthy \<or> status pm = Recovering) ps"
  by (induction ps) auto

text \<open>
  Claim C4 fails in \<^verbatim>\<open>gradualRevert\<close>. Whenever every registered path is \<open>Degraded\<close>
  after the recovery scan, the result is \<^verbatim>\<open>null\<close>, whatever the loads are: the uniform
  target that the function prepares for this case never reaches a schedule. Both paths
  of the scenario are \<open>Degraded\<close>, with the loads 90 and 10, 40 points from the uniform
  split, and the result is \<^verbatim>\<open>null\<close>.
\<close>

theorem gradualRevert_all_degraded_returns_null:
  "(list_all (\<lambda>(pathId, pm). status pm = Degraded) (paths (snd (detectRecoveredPaths c t)))
      \<longrightarrow> fst (gradualRevert c t) = None)
   \<and> statusOf allDegradedScenario 0 = Some Degraded
   \<and> statusOf allDegradedScenario 1 = Some Degraded
   \<and> map fst (paths allDegradedScenario) = [0, 1]
   \<and> loadOf allDegradedScenario 0 = Some 90
   \<and> loadOf allDegradedScenario 1 = Some 10
   \<and> fst (gradualRevert allDegradedScenario 5000) = None"
proof
  show "list_all (\<lambda>(pathId, pm). status pm = Degraded) (paths (snd (detectRecoveredPaths c t)))
      \<longrightarrow> fst (gradualRevert c t) = None"
    by (simp add: gradualRevert_def Let_def all_degraded_none_healthy)
  show "statusOf allDegradedScenario 0 = Some Degraded
   \<and> statusOf allDegradedScenario 1 = Some Degraded
   \<and> map fst (paths allDegradedScenario) = [0, 1]
   \<and> loadOf allDegradedScenario 0 = Some 90
   \<and> loadOf allDegradedScenario 1 = Some 10
   \<and> fst (gradualRevert allDegradedScenario 5000) = None"
    by code_simp
qed

theorem gradualRevert_all_degraded_returns_null_witness:
  "list_all (\<lambda>(pathId, pm). status pm = Degraded)
     (paths (snd (detectRecoveredPaths allDegradedScenario 5000)))
   \<and> fst (gradualRevert allDegradedScenario 5000) = None"
proof -
  have h: "list_all (\<lambda>(pathId, pm). status pm = Degraded)
             (paths (snd (detectRecoveredPaths allDegradedScenario 5000)))"
    by code_simp
  with gradualRevert_all_degraded_returns_null [of allDegradedScenario 5000]
  show ?thesis by blast
qed

lemma ewma_updateMetrics:
  "ewma (updateMetrics c t x pm)
     = (if ewma pm = 0 then x else alpha c * x + (1 - alpha c) * ewma pm)"
  by (simp add: updateMetrics_def Let_def)

lemma registerPath_fresh_metrics:
  "map_of (paths (registerPath c newId ns load)) newId
     = Some \<lparr>nodeIds = ns, ewma = 0, slope = 0, loadPercentage = load, status = Healthy,
             lastFailureTime = 0, lastRecoveryTime = 0, latencyWindow = []\<rparr>"
  by (simp add: registerPath_def map_of_mapSet)

lemma ewma_all_addBatchLatency:
  "ewma_all (addBatchLatency c t x pid)
     = (if ewma_all c = 0 then x else alpha c * x + (1 - alpha c) * ewma_all c)"
  by (simp add: addBatchLatency_def updateEWMA_def updateSlope_def updatePathMetrics_def Let_def
      split: option.splits)

lemma paths_before_updatePathMetrics:
  "paths (updateSlope (updateEWMA (c\<lparr>latencyWindow_all := w\<rparr>) x)) = paths c"
  by (simp add: updateEWMA_def updateSlope_def)

lemma alpha_before_updatePathMetrics:
  "alpha (updateSlope (updateEWMA (c\<lparr>latencyWindow_all := w\<rparr>) x)) = alpha c"
  by (simp add: updateEWMA_def updateSlope_def)

lemma ewmaOf_addBatchLatency_none: "ewmaOf (addBatchLatency c t x None) q = ewmaOf c q"
  by (simp add: addBatchLatency_def Let_def ewmaOf_def paths_before_updatePathMetrics)

lemma ewmaOf_addBatchLatency_other:
  "q \<noteq> pathId \<Longrightarrow> ewmaOf (addBatchLatency c t x (Some pathId)) q = ewmaOf c q"
  by (simp add: addBatchLatency_def Let_def ewmaOf_def updatePathMetrics_def map_of_mapSet
      paths_before_updatePathMetrics split: option.splits)

lemma ewmaOf_addBatchLatency_unregistered:
  "map_of (paths c) pathId = None \<Longrightarrow> ewmaOf (addBatchLatency c t x (Some pathId)) q = ewmaOf c q"
  by (simp add: addBatchLatency_def Let_def ewmaOf_def updatePathMetrics_def
      paths_before_updatePathMetrics)

lemma ewmaOf_addBatchLatency_same:
  "map_of (paths c) pathId = Some pm \<Longrightarrow>
   ewmaOf (addBatchLatency c t x (Some pathId)) pathId
     = Some (if ewma pm = 0 then x else alpha c * x + (1 - alpha c) * ewma pm)"
  by (simp add: addBatchLatency_def Let_def ewmaOf_def updatePathMetrics_def map_of_mapSet
      paths_before_updatePathMetrics alpha_before_updatePathMetrics ewma_updateMetrics)

text \<open>
  Claim C9, as amended. With \<open>\<alpha> = 0.3\<close>, a controller that has seen no sample takes the
  first sample as its EWMA, and every later sample \<open>x\<close> turns a previous EWMA \<open>e\<close> into
  \<open>0.3 * x + 0.7 * e\<close>, provided \<open>e\<close> is not zero: an EWMA of exactly zero is read as
  "no sample yet" and is replaced by the sample. The same holds for the EWMA of each
  registered path, independently: a batch of path \<open>p\<close> moves the aggregate EWMA from the
  aggregate's previous value and the EWMA of \<open>p\<close> from the previous value of \<open>p\<close>, and
  leaves the EWMA of every other path as it is; a batch without a path, or of a path
  that is not registered, leaves every path's EWMA as it is. The model computes with
  real numbers, so the values are exact.
\<close>

theorem ewma_update_rule:
  assumes "alpha c = 0.3"
  shows "ewma_all (addBatchLatency (newController w 0.3 emax smin) t x pid) = x
         \<and> (ewma_all c \<noteq> 0 \<longrightarrow>
              ewma_all (addBatchLatency c t x pid) = 0.3 * x + 0.7 * ewma_all c)
         \<and> (ewma_all c = 0 \<longrightarrow> ewma_all (addBatchLatency c t x pid) = x)
         \<and> ewmaOf (addBatchLatency (registerPath c newId ns load) t x (Some newId)) newId = Some x
         \<and> (map_of (paths c) pathId = Some pm \<and> ewma pm \<noteq> 0 \<longrightarrow>
              ewmaOf (addBatchLatency c t x (Some pathId)) pathId = Some (0.3 * x + 0.7 * ewma pm))
         \<and> (map_of (paths c) pathId = Some pm \<and> ewma pm = 0 \<longrightarrow>
              ewmaOf (addBatchLatency c t x (Some pathId)) pathId = Some x)
         \<and> (q \<noteq> pathId \<longrightarrow> ewmaOf (addBatchLatency c t x (Some pathId)) q = ewmaOf c q)
         \<and> (map_of (paths c) pathId = None \<longrightarrow>
              ewmaOf (addBatchLatency c t x (Some pathId)) q = ewmaOf c q)
         \<and> ewmaOf (addBatchLatency c t x None) q = ewmaOf c q"
proof -
  have al: "alpha c = 3 / 10" and al': "1 - alpha c = 7 / 10"
    using assms(1) by simp_all
  have 1: "ewma_all (addBatchLatency (newController w 0.3 emax smin) t x pid) = x"
    by (simp add: ewma_all_addBatchLatency) (simp add: newController_def)
  have 2: "ewma_all c \<noteq> 0 \<longrightarrow>
              ewma_all (addBatchLatency c t x pid) = 0.3 * x + 0.7 * ewma_all c"
    by (simp add: ewma_all_addBatchLatency al al')
  have 3: "ewma_all c = 0 \<longrightarrow> ewma_all (addBatchLatency c t x pid) = x"
    by (simp add: ewma_all_addBatchLatency)
  have 4: "ewmaOf (addBatchLatency (registerPath c newId ns load) t x (Some newId)) newId = Some x"
    using ewmaOf_addBatchLatency_same [OF registerPath_fresh_metrics, of c newId ns load t x]
    by simp
  have 5: "map_of (paths c) pathId = Some pm \<and> ewma pm \<noteq> 0 \<longrightarrow>
              ewmaOf (addBatchLatency c t x (Some pathId)) pathId = Some (0.3 * x + 0.7 * ewma pm)"
    using ewmaOf_addBatchLatency_same [of c pathId pm t x] by (simp add: al al')
  have 6: "map_of (paths c) pathId = Some pm \<and> ewma pm = 0 \<longrightarrow>
              ewmaOf (addBatchLatency c t x (Some pathId)) pathId = Some x"
    using ewmaOf_addBatchLatency_same [of c pathId pm t x] by simp
  have 7: "q \<noteq> pathId \<longrightarrow> ewmaOf (addBatchLatency c t x (Some pathId)) q = ewmaOf c q"
    by (simp add: ewmaOf_addBatchLatency_other)
  have 8: "map_of (paths c) pathId = None \<longrightarrow>
              ewmaOf (addBatchLatency c t x (Some pathId)) q = ewmaOf c q"
    by (simp add: ewmaOf_addBatchLatency_unregistered)
  have 9: "ewmaOf (addBatchLatency c t x None) q = ewmaOf c q"
    by (rule ewmaOf_addBatchLatency_none)
  from 1 2 3 4 5 6 7 8 9 show ?thesis by blast
qed

theorem ewma_update_rule_witness:
  "alpha twoPathScenario = 0.3
   \<and> ewma_all twoPathScenario = 100 \<and> ewma_all twoPathScenario \<noteq> 0
   \<and> map_of (paths twoPathScenario) 0 = Some oneSamplePath
   \<and> ewma oneSamplePath = 100 \<and> ewma oneSamplePath \<noteq> 0
   \<and> ewmaOf twoPathScenario 1 = Some 0 \<and> (1 :: int) \<noteq> 0
   \<and> ewma_all (addBatchLatency twoPathScenario 1000 200 (Some 0)) = 130
   \<and> ewmaOf (addBatchLatency twoPathScenario 1000 200 (Some 0)) 0 = Some 130
   \<and> ewmaOf (addBatchLatency twoPathScenario 1000 200 (Some 0)) 1 = Some 0"
proof -
  have a: "alpha twoPathScenario = 0.3" by code_simp
  have g: "ewma_all twoPathScenario = 100" by code_simp
  have p: "map_of (paths twoPathScenario) 0 = Some oneSamplePath" by code_simp
  have e: "ewma oneSamplePath = 100" by code_simp
  have o: "ewmaOf twoPathScenario 1 = Some 0" by code_simp
  from ewma_update_rule [OF a, where w = 10 and emax = 100 and smin = 5 and t = 1000
      and x = 200 and pid = "Some 0" and newId = 7 and ns = "[]" and load = 0 and pathId = 0
      and pm = oneSamplePath and q = 1] g p e o
  have "ewma_all (addBatchLatency twoPathScenario 1000 200 (Some 0)) = 130
        \<and> ewmaOf (addBatchLatency twoPathScenario 1000 200 (Some 0)) 0 = Some 130
        \<and> ewmaOf (addBatchLatency twoPathScenario 1000 200 (Some 0)) 1 = Some 0"
    by simp
  with a g p e o show ?thesis by simp
qed

text \<open>
  Claim C9, as stated, fails for a sequence that starts with a sample of 0 ms: the
  second sample, 10, becomes the EWMA, where the claim asks for \<open>0.3 * 10 + 0.7 * 0 = 3\<close>.
\<close>

theorem ewma_zero_sample_counterexample:
  "ewma_all (updateEWMA defaultController 0) = 0
   \<and> ewma_all (updateEWMA (updateEWMA defaultController 0) 10) = 10
   \<and> \<bar>10 - (0.3 * 10 + 0.7 * 0)\<bar> > (1 / 10 ^ 9 :: real)"
  by code_simp

section \<open>Properties of the rebalance and of the gradual revert\<close>

lemma totalLoad_scale:
  "totalLoad (map (\<lambda>(pathId, v). (pathId, v * k)) d) = totalLoad d * k"
  by (induction d) (auto simp: totalLoad_def algebra_simps)

lemma renormalise_keeps_keys:
  "renormalise d = Some d' \<Longrightarrow> map fst d' = map fst d"
  by (auto simp: renormalise_def Let_def split: if_splits)

lemma renormalise_total:
  assumes "totalLoad d \<noteq> 0"
  shows "\<exists>d'. renormalise d = Some d' \<and> \<bar>totalLoad d' - 100\<bar> \<le> 0.01"
proof (cases "\<bar>totalLoad d - 100\<bar> > 0.01")
  case True
  have "totalLoad (map (\<lambda>(pathId, v). (pathId, v * (100 / totalLoad d))) d)
          = totalLoad d * (100 / totalLoad d)"
    by (rule totalLoad_scale)
  also have "\<dots> = 100" using assms by simp
  finally have "\<bar>totalLoad (map (\<lambda>(pathId, v). (pathId, v * (100 / totalLoad d))) d) - 100\<bar>
                  \<le> 0.01"
    by simp
  moreover have "renormalise d = Some (map (\<lambda>(pathId, v). (pathId, v * (100 / totalLoad d))) d)"
    using True assms by (simp only: renormalise_def Let_def if_True if_False simp_thms)
  ultimately show ?thesis by blast
next
  case False
  then show ?thesis by (simp add: renormalise_def Let_def)
qed

lemma renormalise_exact: "totalLoad d = 100 \<Longrightarrow> renormalise d = Some d"
  by (simp add: renormalise_def Let_def)

lemma interpolated_total:
  "totalLoad (map (\<lambda>(pathId, current). (pathId, current + (tgt pathId - current) * p)) cd)
     = (1 - p) * totalLoad cd + p * (\<Sum>(pathId, current)\<leftarrow>cd. tgt pathId)"
  by (induction cd) (auto simp: totalLoad_def algebra_simps)

text \<open>The order of an object's keys: the same entries, so the same sums and lookups.\<close>

lemma sum_list_insort_key:
  fixes f :: "'a \<Rightarrow> real"
  shows "sum_list (map f (insort_key g x xs)) = f x + sum_list (map f xs)"
  by (induction xs) simp_all

lemma sum_list_sort_key:
  fixes f :: "'a \<Rightarrow> real"
  shows "sum_list (map f (sort_key g xs)) = sum_list (map f xs)"
  by (induction xs) (simp_all add: sum_list_insort_key)

lemma sum_list_partition:
  fixes f :: "'a \<Rightarrow> real"
  shows "sum_list (map f (filter P xs)) + sum_list (map f (filter (\<lambda>x. \<not> P x) xs))
           = sum_list (map f xs)"
  by (induction xs) simp_all

lemma sum_objectEntries:
  fixes f :: "int \<times> real \<Rightarrow> real"
  shows "sum_list (map f (objectEntries d)) = sum_list (map f d)"
proof -
  have "sum_list (map f (objectEntries d))
          = sum_list (map f (filter (\<lambda>x. isArrayIndex (fst x)) d))
            + sum_list (map f (filter (\<lambda>x. \<not> isArrayIndex (fst x)) d))"
    by (simp add: objectEntries_def sum_list_sort_key split_def)
  then show ?thesis by (simp add: sum_list_partition)
qed

lemma totalLoad_objectEntries: "totalLoad (objectEntries d) = totalLoad d"
  unfolding totalLoad_def by (rule sum_objectEntries)

lemma set_objectEntries: "set (objectEntries d) = set d"
  by (auto simp: objectEntries_def)

lemma distinct_objectEntries:
  assumes "distinct (map fst d)"
  shows "distinct (map fst (objectEntries d))"
proof -
  have d: "distinct d" and i: "inj_on fst (set d)"
    using assms by (simp_all add: distinct_map)
  have "distinct (objectEntries d)"
    using d by (auto simp: objectEntries_def)
  moreover have "inj_on fst (set (objectEntries d))"
    using i by (simp add: set_objectEntries)
  ultimately show ?thesis by (simp add: distinct_map)
qed

lemma map_of_objectEntries:
  assumes "distinct (map fst d)"
  shows "map_of (objectEntries d) = map_of d"
  using distinct_objectEntries [OF assms] assms set_objectEntries [of d]
  by (simp add: map_of_inject_set)

lemma keys_objectEntries: "set (map fst (objectEntries d)) = set (map fst d)"
  by (simp add: set_objectEntries)

lemma list_ex_objectEntries: "list_ex P (objectEntries d) = list_ex P d"
  by (simp add: list_ex_iff set_objectEntries)

text \<open>Writing loads back through the keys.\<close>

lemma parseIntKey_plain: "\<bar>k\<bar> < 10 ^ 21 \<Longrightarrow> parseIntKey k = k"
  by (simp add: parseIntKey_def)

lemma updatePathLoad_keys: "map fst (paths (updatePathLoad c k v)) = map fst (paths c)"
  by (simp add: updatePathLoad_def fst_mapSet_present split: option.splits)

lemma loadOf_updatePathLoad:
  "loadOf (updatePathLoad c k v) k'
     = (if k' = k \<and> map_of (paths c) k \<noteq> None then Some v else loadOf c k')"
  by (auto simp: updatePathLoad_def loadOf_def map_of_mapSet split: option.splits)

lemma writeLoads_Cons:
  "writeLoads c ((k, v) # es) = writeLoads (updatePathLoad c (parseIntKey k) v) es"
  by (simp add: writeLoads_def)

lemma writeLoads_Nil: "writeLoads c [] = c"
  by (simp add: writeLoads_def)

lemma writeLoads_keys: "map fst (paths (writeLoads c es)) = map fst (paths c)"
proof (induction es arbitrary: c)
  case Nil
  then show ?case by (simp add: writeLoads_Nil)
next
  case (Cons a es)
  obtain k v where a: "a = (k, v)" by (cases a)
  show ?case
    using Cons.IH [of "updatePathLoad c (parseIntKey k) v"]
    by (simp add: a writeLoads_Cons updatePathLoad_keys)
qed

lemma loadOf_writeLoads:
  assumes "distinct (map fst es)" and "set (map fst es) \<subseteq> set (map fst (paths c))"
    and "\<forall>k \<in> set (map fst es). \<bar>k\<bar> < 10 ^ 21"
  shows "loadOf (writeLoads c es) k = (case map_of es k of Some v \<Rightarrow> Some v | None \<Rightarrow> loadOf c k)"
  using assms
proof (induction es arbitrary: c)
  case Nil
  then show ?case by (simp add: writeLoads_Nil)
next
  case (Cons a es)
  obtain k0 v0 where a: "a = (k0, v0)" by (cases a)
  have plain: "parseIntKey k0 = k0"
    using Cons.prems(3) a by (simp add: parseIntKey_plain)
  have present: "map_of (paths c) k0 \<noteq> None"
    using Cons.prems(2) a by (simp add: map_of_eq_None_iff)
  have d: "distinct (map fst es)" and fresh: "k0 \<notin> set (map fst es)"
    using Cons.prems(1) a by simp_all
  have sub: "set (map fst es) \<subseteq> set (map fst (paths (updatePathLoad c k0 v0)))"
    using Cons.prems(2) by (simp add: updatePathLoad_keys)
  have pl: "\<forall>k \<in> set (map fst es). \<bar>k\<bar> < 10 ^ 21"
    using Cons.prems(3) by simp
  have none: "map_of es k0 = None"
    using fresh by (simp add: map_of_eq_None_iff)
  show ?case
    using Cons.IH [OF d sub pl] present none
    by (simp add: a writeLoads_Cons plain loadOf_updatePathLoad split: option.splits)
qed

lemma applyLoads_keys: "map fst (paths (applyLoads c d)) = map fst (paths c)"
  by (simp add: applyLoads_def writeLoads_keys)

lemma loadOf_applyLoads:
  assumes "distinct (map fst d)" and "set (map fst d) \<subseteq> set (map fst (paths c))"
    and "\<forall>k \<in> set (map fst d). \<bar>k\<bar> < 10 ^ 21"
  shows "loadOf (applyLoads c d) k = (case map_of d k of Some v \<Rightarrow> Some v | None \<Rightarrow> loadOf c k)"
proof -
  have "loadOf (writeLoads c (objectEntries d)) k
          = (case map_of (objectEntries d) k of Some v \<Rightarrow> Some v | None \<Rightarrow> loadOf c k)"
  proof (rule loadOf_writeLoads)
    show "distinct (map fst (objectEntries d))"
      using assms(1) by (rule distinct_objectEntries)
    show "set (map fst (objectEntries d)) \<subseteq> set (map fst (paths c))"
      using assms(2) by (simp only: keys_objectEntries)
    show "\<forall>k \<in> set (map fst (objectEntries d)). \<bar>k\<bar> < 10 ^ 21"
      using assms(3) by (simp only: keys_objectEntries)
  qed
  then show ?thesis
    by (simp add: applyLoads_def map_of_objectEntries [OF assms(1)])
qed

lemma lookup_values:
  "distinct (map fst xs) \<Longrightarrow> map (\<lambda>x. the (map_of xs (fst x))) xs = map snd xs"
  by (rule map_cong) (auto dest: map_of_is_SomeI)

lemma totalLoad_by_lookup:
  assumes "distinct (map fst d)" and "distinct ks" and "set ks = set (map fst d)"
  shows "(\<Sum>k\<leftarrow>ks. the (map_of d k)) = totalLoad d"
proof -
  have "(\<Sum>k\<leftarrow>ks. the (map_of d k)) = (\<Sum>k\<in>set ks. the (map_of d k))"
    using assms(2) by (rule sum_list_distinct_conv_sum_set)
  also have "\<dots> = (\<Sum>k\<in>set (map fst d). the (map_of d k))"
    using assms(3) by simp
  also have "\<dots> = (\<Sum>k\<leftarrow>map fst d. the (map_of d k))"
    using assms(1) by (rule sum_list_distinct_conv_sum_set [symmetric])
  also have "\<dots> = sum_list (map (\<lambda>x. the (map_of d (fst x))) d)"
    by (simp add: comp_def)
  also have "\<dots> = totalLoad d"
    unfolding totalLoad_def by (simp only: lookup_values [OF assms(1)])
  finally show ?thesis .
qed

lemma loadOf_currentLoads: "loadOf c k = map_of (currentLoads c) k"
  by (simp add: loadOf_def currentLoads_def map_of_map)

lemma currentLoads_keys: "map fst (currentLoads c) = map fst (paths c)"
  by (simp add: currentLoads_def split_def comp_def)

lemma totalLoad_currentLoads:
  assumes "distinct (map fst (paths c))"
  shows "totalLoad (currentLoads c) = (\<Sum>k\<leftarrow>map fst (paths c). the (loadOf c k))"
proof -
  have "distinct (map fst (currentLoads c))"
    using assms by (simp add: currentLoads_keys)
  then have "(\<Sum>k\<leftarrow>map fst (currentLoads c). the (map_of (currentLoads c) k))
               = totalLoad (currentLoads c)"
    by (intro totalLoad_by_lookup) simp_all
  then show ?thesis
    by (simp add: currentLoads_keys loadOf_currentLoads)
qed

text \<open>
  A distribution over the registered paths, written back: every path holds its entry,
  and the loads sum to what the distribution sums to.
\<close>

lemma applied_loads:
  assumes "distinct (map fst (paths c))" and "distinct (map fst d)"
    and "set (map fst d) = set (map fst (paths c))"
    and "\<forall>k \<in> set (map fst (paths c)). \<bar>k\<bar> < 10 ^ 21"
  shows "\<forall>k \<in> set (map fst (paths c)). loadOf (applyLoads c d) k = map_of d k"
    and "totalLoad (currentLoads (applyLoads c d)) = totalLoad d"
proof -
  have l: "loadOf (applyLoads c d) k = (case map_of d k of Some v \<Rightarrow> Some v | None \<Rightarrow> loadOf c k)"
    for k
    using assms by (intro loadOf_applyLoads) simp_all
  show e: "\<forall>k \<in> set (map fst (paths c)). loadOf (applyLoads c d) k = map_of d k"
  proof
    fix k assume "k \<in> set (map fst (paths c))"
    then have "k \<in> set (map fst d)" using assms(3) by simp
    then obtain v where "map_of d k = Some v"
      by (cases "map_of d k") (simp_all add: map_of_eq_None_iff)
    then show "loadOf (applyLoads c d) k = map_of d k" by (simp add: l)
  qed
  have "distinct (map fst (paths (applyLoads c d)))"
    using assms(1) by (simp add: applyLoads_keys)
  then have "totalLoad (currentLoads (applyLoads c d))
               = (\<Sum>k\<leftarrow>map fst (paths c). the (loadOf (applyLoads c d) k))"
    by (simp add: totalLoad_currentLoads applyLoads_keys)
  also have "\<dots> = (\<Sum>k\<leftarrow>map fst (paths c). the (map_of d k))"
  proof (intro arg_cong [where f = sum_list] map_cong refl)
    fix k assume "k \<in> set (map fst (paths c))"
    with e have "loadOf (applyLoads c d) k = map_of d k" by (rule bspec)
    then show "the (loadOf (applyLoads c d) k) = the (map_of d k)" by (rule arg_cong)
  qed
  also have "\<dots> = totalLoad d"
    using assms(1-3) by (intro totalLoad_by_lookup) simp_all
  finally show "totalLoad (currentLoads (applyLoads c d)) = totalLoad d" .
qed

lemma detectDegradedPaths_ids: "fst (detectDegradedPaths c t) = degradedIds c"
  by (simp add: detectDegradedPaths_def degradedIds_def)

lemma detectDegradedPaths_keys:
  "map fst (paths (snd (detectDegradedPaths c t))) = map fst (paths c)"
  by (simp add: detectDegradedPaths_def split_def comp_def)

lemma detectDegradedPaths_loads:
  "currentLoads (snd (detectDegradedPaths c t)) = currentLoads c"
  by (simp add: detectDegradedPaths_def currentLoads_def split_def comp_def)

lemma detectDegradedPaths_nodeIds:
  "map_option nodeIds (map_of (paths (snd (detectDegradedPaths c t))) k)
     = map_option nodeIds (map_of (paths c) k)"
proof -
  let ?F = "\<lambda>pm. if isDegrading c pm \<and> status pm \<noteq> Degraded
                  then pm\<lparr>status := Degraded, lastFailureTime := t\<rparr> else pm"
  have "paths (snd (detectDegradedPaths c t)) = map (\<lambda>(pathId, pm). (pathId, ?F pm)) (paths c)"
    by (simp add: detectDegradedPaths_def)
  then have "map_of (paths (snd (detectDegradedPaths c t))) k = map_option ?F (map_of (paths c) k)"
    by (simp only: map_of_map comp_def)
  then show ?thesis
    by (cases "map_of (paths c) k") simp_all
qed

lemma healthy_shares_sum:
  assumes "H \<noteq> []"
  shows "(\<Sum>x\<leftarrow>H. healthyShare rem (\<Sum>y\<leftarrow>H. f y) (length H) (f x)) = rem"
proof (cases "0 < (\<Sum>y\<leftarrow>H. f y)")
  case True
  have "(\<Sum>x\<leftarrow>H. f x / (\<Sum>y\<leftarrow>H. f y) * rem) = (\<Sum>x\<leftarrow>H. f x * (rem / (\<Sum>y\<leftarrow>H. f y)))"
    by simp
  also have "\<dots> = (\<Sum>x\<leftarrow>H. f x) * (rem / (\<Sum>y\<leftarrow>H. f y))"
    by (rule sum_list_mult_const)
  also have "\<dots> = rem" using True by simp
  finally show ?thesis using True by (simp add: healthyShare_def)
next
  case False
  have "(\<Sum>x\<leftarrow>H. rem / real (length H)) = real (length H) * (rem / real (length H))"
    by (simp add: sum_list_triv)
  also have "\<dots> = rem" using assms by simp
  finally show ?thesis using False by (simp add: healthyShare_def)
qed

lemma healthy_empty_as_ids:
  "(filter (\<lambda>(pathId, pm). pathId \<notin> S) ps = []) = (filter (\<lambda>k. k \<notin> S) (map fst ps) = [])"
  by (induction ps) auto



lemma rebalancedLoads_as_paths:
  "map (\<lambda>(pathId, pm). (pathId, 5)) (filter (\<lambda>(pathId, pm). pathId \<in> set D) ps)
   @ map (\<lambda>(pathId, pm).
            (pathId, healthyShare (100 - real (length D) * 5)
                       (\<Sum>(pathId, pm)\<leftarrow>filter (\<lambda>(pathId, pm). pathId \<notin> set D) ps. loadPercentage pm)
                       (length (filter (\<lambda>(pathId, pm). pathId \<notin> set D) ps))
                       (loadPercentage pm)))
         (filter (\<lambda>(pathId, pm). pathId \<notin> set D) ps)
   = rebalancedLoads D (map (\<lambda>(pathId, pm). (pathId, loadPercentage pm)) ps)"
  by (simp add: rebalancedLoads_def totalLoad_def filter_map comp_def split_def)

lemma all_pinned:
  "filter (\<lambda>(pathId, pm). pathId \<notin> S) ps = [] \<Longrightarrow> filter (\<lambda>(pathId, pm). pathId \<in> S) ps = ps"
  by (induction ps) (auto split: if_splits)

text \<open>What a rebalance returns, and the state that it leaves.\<close>

lemma rebalance_outcome:
  "rebalancePaths c g t src dst =
     (if degradedIds c = [] \<or> validAlternatives c g src dst = []
      then Some (NoRebalance, snd (detectDegradedPaths c t))
      else if healthyIds c = []
      then Some (NewDistribution
                   (map (\<lambda>k. (k, 100 / real (length (degradedIds c)))) (map fst (paths c))),
                 snd (detectDegradedPaths c t))
      else (case renormalise (rebalancedLoads (degradedIds c) (currentLoads c)) of
              None \<Rightarrow> Some (NonFiniteDistribution, snd (detectDegradedPaths c t))
            | Some d \<Rightarrow> Some (NewDistribution d, applyLoads (snd (detectDegradedPaths c t)) d)))"
proof -
  obtain D c1 where dd: "detectDegradedPaths c t = (D, c1)"
    by (cases "detectDegradedPaths c t")
  have D: "D = degradedIds c" using detectDegradedPaths_ids [of c t] dd by simp
  have c1: "c1 = snd (detectDegradedPaths c t)" using dd by simp
  have nl: "List.map_filter (\<lambda>pathId. map_option nodeIds (map_of (paths c1) pathId)) D
              = degradedNodeLists c"
    by (simp add: degradedNodeLists_def D c1 detectDegradedPaths_nodeIds)
  obtain newPaths where np: "findKShortestPaths g src dst 5 (findCommonNodes (degradedNodeLists c))
                               = Some newPaths"
    using findKShortestPaths_returns [of g src dst 5 "findCommonNodes (degradedNodeLists c)"]
    by blast
  have va: "validAlternatives c g src dst = filter (isValidPath g) newPaths"
    by (simp add: validAlternatives_def np)
  have v0: "(newPaths = [] \<or> filter (isValidPath g) newPaths = [])
              = (validAlternatives c g src dst = [])"
    by (auto simp: va)
  let ?H = "filter (\<lambda>(pathId, pm). pathId \<notin> set D) (paths c1)"
  have e: "(?H = []) = (healthyIds c = [])"
    by (simp add: healthy_empty_as_ids c1 detectDegradedPaths_keys healthyIds_def D)
  have cl: "map (\<lambda>(pathId, pm). (pathId, loadPercentage pm)) (paths c1) = currentLoads c"
    using detectDegradedPaths_loads [of c t] by (simp add: currentLoads_def c1)
  have u: "?H = [] \<Longrightarrow>
           map (\<lambda>(pathId, v). (pathId, 100 / real (length D)))
               (map (\<lambda>(pathId, pm). (pathId, 5 :: real))
                    (filter (\<lambda>(pathId, pm). pathId \<in> set D) (paths c1)))
             = map (\<lambda>k. (k, 100 / real (length (degradedIds c)))) (map fst (paths c))"
  proof -
    assume "?H = []"
    then have "filter (\<lambda>(pathId, pm). pathId \<in> set D) (paths c1) = paths c1"
      by (rule all_pinned)
    then have "map (\<lambda>(pathId, v). (pathId, 100 / real (length D)))
               (map (\<lambda>(pathId, pm). (pathId, 5 :: real))
                    (filter (\<lambda>(pathId, pm). pathId \<in> set D) (paths c1)))
             = map (\<lambda>k. (k, 100 / real (length D))) (map fst (paths c1))"
      by (simp add: comp_def split_def)
    then show ?thesis
      by (simp add: c1 detectDegradedPaths_keys D)
  qed
  show ?thesis
  proof (cases "degradedIds c = [] \<or> validAlternatives c g src dst = []")
    case True
    then show ?thesis
      using v0 unfolding rebalancePaths_def dd
      by (auto simp: Let_def nl np D [symmetric] c1 [symmetric])
  next
    case False
    then have d0: "D \<noteq> []" and v1: "newPaths \<noteq> []" "filter (isValidPath g) newPaths \<noteq> []"
      using v0 D by auto
    show ?thesis
    proof (cases "healthyIds c = []")
      case True
      then have h: "?H = []" using e by simp
      show ?thesis
        using False True d0 v1 h u [OF h] unfolding rebalancePaths_def dd
        by (simp add: Let_def nl np c1 [symmetric])
    next
      case h: False
      then have h': "?H \<noteq> []" using e by simp
      show ?thesis
        using False h d0 v1 h' unfolding rebalancePaths_def dd
        by (simp add: Let_def nl np c1 [symmetric] rebalancedLoads_as_paths cl D [symmetric]
            split: option.splits)
    qed
  qed
qed

lemma degradedIds_distinct: "distinct (map fst (paths c)) \<Longrightarrow> distinct (degradedIds c)"
  by (simp add: degradedIds_def distinct_map_filter)

lemma degradedIds_registered: "set (degradedIds c) \<subseteq> set (map fst (paths c))"
  by (auto simp: degradedIds_def)

lemma pinned_count:
  assumes "distinct (map fst cl)" and "distinct D" and "set D \<subseteq> set (map fst cl)"
  shows "length (filter (\<lambda>x. fst x \<in> set D) cl) = length D"
proof -
  have "length (filter (\<lambda>x. fst x \<in> set D) cl) = length (filter (\<lambda>k. k \<in> set D) (map fst cl))"
    by (simp add: filter_map comp_def)
  also have "\<dots> = card ({k. k \<in> set D} \<inter> set (map fst cl))"
    using assms(1) by (rule distinct_length_filter)
  also have "{k. k \<in> set D} \<inter> set (map fst cl) = set D"
    using assms(3) by auto
  also have "card (set D) = length D"
    using assms(2) by (rule distinct_card)
  finally show ?thesis .
qed

lemma rebalancedLoads_total:
  assumes "distinct (map fst cl)" and "distinct D" and "set D \<subseteq> set (map fst cl)"
    and "filter (\<lambda>x. fst x \<notin> set D) cl \<noteq> []"
  shows "totalLoad (rebalancedLoads D cl) = 100"
proof -
  let ?H = "filter (\<lambda>x. fst x \<notin> set D) cl"
  let ?r = "100 - real (length D) * 5"
  have "totalLoad (rebalancedLoads D cl)
          = 5 * real (length (filter (\<lambda>x. fst x \<in> set D) cl))
            + (\<Sum>x\<leftarrow>?H. healthyShare ?r (\<Sum>y\<leftarrow>?H. snd y) (length ?H) (snd x))"
    unfolding rebalancedLoads_def totalLoad_def by (simp add: comp_def sum_list_triv)
  also have "(\<Sum>x\<leftarrow>?H. healthyShare ?r (\<Sum>y\<leftarrow>?H. snd y) (length ?H) (snd x)) = ?r"
    using assms(4) by (intro healthy_shares_sum) simp
  also have "length (filter (\<lambda>x. fst x \<in> set D) cl) = length D"
    using assms(1-3) by (rule pinned_count)
  finally show ?thesis by simp
qed

lemma healthy_loads_empty:
  "(filter (\<lambda>x. fst x \<notin> S) (currentLoads c) = []) = (filter (\<lambda>k. k \<notin> S) (map fst (paths c)) = [])"
  by (simp add: filter_empty_conv currentLoads_def split_def)

lemma rebalancedLoads_exact:
  assumes "distinct (map fst (paths c))" and "healthyIds c \<noteq> []"
  shows "totalLoad (rebalancedLoads (degradedIds c) (currentLoads c)) = 100"
proof (rule rebalancedLoads_total)
  show "distinct (map fst (currentLoads c))"
    using assms(1) by (simp add: currentLoads_keys)
  show "distinct (degradedIds c)"
    using assms(1) by (rule degradedIds_distinct)
  show "set (degradedIds c) \<subseteq> set (map fst (currentLoads c))"
    using degradedIds_registered [of c] by (simp add: currentLoads_keys)
  show "filter (\<lambda>x. fst x \<notin> set (degradedIds c)) (currentLoads c) \<noteq> []"
    using assms(2) by (simp add: healthy_loads_empty healthyIds_def)
qed

lemma all_degraded_count:
  assumes "distinct (map fst (paths c))" and "healthyIds c = []"
  shows "length (degradedIds c) = length (paths c)"
proof -
  have "set (map fst (paths c)) \<subseteq> set (degradedIds c)"
    using assms(2) by (auto simp: healthyIds_def filter_empty_conv)
  with degradedIds_registered [of c] have "set (degradedIds c) = set (map fst (paths c))"
    by auto
  then have "card (set (degradedIds c)) = card (set (map fst (paths c)))" by simp
  then show ?thesis
    using distinct_card [OF degradedIds_distinct [OF assms(1)]] distinct_card [OF assms(1)]
    by simp
qed




lemma rebalancedLoads_keys:
  "set (map fst (rebalancedLoads D cl)) = set (map fst cl)"
  by (auto simp: rebalancedLoads_def)

lemma rebalancedLoads_distinct:
  assumes "distinct (map fst cl)"
  shows "distinct (map fst (rebalancedLoads D cl))"
proof -
  have "map fst (rebalancedLoads D cl)
          = filter (\<lambda>k. k \<in> set D) (map fst cl) @ filter (\<lambda>k. k \<notin> set D) (map fst cl)"
    by (simp add: rebalancedLoads_def filter_map comp_def)
  then show ?thesis using assms by auto
qed



lemma rebalance_returns_distribution:
  assumes "distinct (map fst (paths c))"
    and "degradedIds c \<noteq> []" and "validAlternatives c g src dst \<noteq> []"
  shows "rebalancePaths c g t src dst =
           (if healthyIds c = []
            then Some (NewDistribution
                         (map (\<lambda>k. (k, 100 / real (length (paths c)))) (map fst (paths c))),
                       snd (detectDegradedPaths c t))
            else Some (NewDistribution (rebalancedLoads (degradedIds c) (currentLoads c)),
                       applyLoads (snd (detectDegradedPaths c t))
                         (rebalancedLoads (degradedIds c) (currentLoads c))))"
proof (cases "healthyIds c = []")
  case True
  then show ?thesis
    using assms(2,3) all_degraded_count [OF assms(1) True]
    by (simp add: rebalance_outcome)
next
  case False
  have "renormalise (rebalancedLoads (degradedIds c) (currentLoads c))
          = Some (rebalancedLoads (degradedIds c) (currentLoads c))"
    using rebalancedLoads_exact [OF assms(1) False] by (rule renormalise_exact)
  then show ?thesis
    using assms(2,3) False by (simp add: rebalance_outcome)
qed




lemma recoverPath_load: "loadPercentage (snd (recoverPath c t pm)) = loadPercentage pm"
  by (simp add: recoverPath_def)

lemma detectRecoveredPaths_loads:
  "currentLoads (snd (detectRecoveredPaths c t)) = currentLoads c"
  by (simp add: detectRecoveredPaths_def currentLoads_def Let_def recoverPath_load
      split_def comp_def)

lemma detectRecoveredPaths_optimal:
  "optimalDistribution (snd (detectRecoveredPaths c t)) = optimalDistribution c"
  by (simp add: detectRecoveredPaths_def Let_def)

lemma detectRecoveredPaths_keys:
  "map fst (paths (snd (detectRecoveredPaths c t))) = map fst (paths c)"
  by (simp add: detectRecoveredPaths_def Let_def split_def comp_def)

lemma some_healthy_not_all_degraded:
  "list_ex (\<lambda>(pathId, pm). status pm = Healthy \<or> status pm = Recovering) ps \<Longrightarrow>
   \<not> list_all (\<lambda>(pathId, pm). status pm = Degraded) ps"
  by (induction ps) auto

lemma optimal_sum:
  "(\<Sum>(pathId, current)\<leftarrow>currentLoads c. targetOf (optimalDistribution c) pathId)
     = totalLoad (optimalLoads c)"
  by (simp add: currentLoads_def optimalLoads_def totalLoad_def split_def comp_def)

text \<open>When a gradual revert returns a schedule, and which one.\<close>

lemma gradualRevert_outcome:
  "gradualRevert c t =
     (if revertDue c t
      then (Some \<lparr>steps = map (revertStep (currentLoads c) (optimalDistribution c) t) [1..<6],
                  durationMs = TRANSITION_DURATION_MS, startTime = t\<rparr>,
            snd (detectRecoveredPaths c t))
      else (None, snd (detectRecoveredPaths c t)))"
proof -
  let ?c1 = "snd (detectRecoveredPaths c t)"
  let ?h = "list_ex (\<lambda>(pathId, pm). status pm = Healthy \<or> status pm = Recovering) (paths ?c1)"
  have cur: "map (\<lambda>(pathId, pm). (pathId, loadPercentage pm)) (paths ?c1) = currentLoads c"
    using detectRecoveredPaths_loads [of c t] by (simp add: currentLoads_def)
  show ?thesis
  proof (cases ?h)
    case True
    then have nd: "\<not> list_all (\<lambda>(pathId, pm). status pm = Degraded) (paths ?c1)"
      by (rule some_healthy_not_all_degraded)
    show ?thesis
      using True nd
      by (simp add: gradualRevert_def Let_def cur detectRecoveredPaths_optimal revertDue_def
          list_ex_objectEntries)
  next
    case False
    then show ?thesis
      by (simp add: gradualRevert_def Let_def revertDue_def)
  qed
qed

lemma revertStep_total:
  assumes "0 < totalLoad cd" and "0 < (\<Sum>(pathId, current)\<leftarrow>cd. targetOf tgt pathId)"
    and "i \<in> {1..5}"
  shows "\<exists>d. step_distribution (revertStep cd tgt t i) = Some d \<and> \<bar>totalLoad d - 100\<bar> \<le> 0.01
             \<and> map fst d = map fst (objectEntries cd)"
proof -
  let ?p = "real i / 5"
  let ?sd = "map (\<lambda>(pathId, current). (pathId, current + (targetOf tgt pathId - current) * ?p))
                 (objectEntries cd)"
  have p: "0 < ?p" "?p \<le> 1" using assms(3) by auto
  have "totalLoad ?sd = (1 - ?p) * totalLoad (objectEntries cd)
                          + ?p * (\<Sum>(pathId, current)\<leftarrow>objectEntries cd. targetOf tgt pathId)"
    by (rule interpolated_total)
  then have "totalLoad ?sd = (1 - ?p) * totalLoad cd
                               + ?p * (\<Sum>(pathId, current)\<leftarrow>cd. targetOf tgt pathId)"
    by (simp only: totalLoad_objectEntries sum_objectEntries)
  moreover have "0 \<le> (1 - ?p) * totalLoad cd" using p assms(1) by simp
  moreover have "0 < ?p * (\<Sum>(pathId, current)\<leftarrow>cd. targetOf tgt pathId)"
    using p(1) assms(2) by (rule mult_pos_pos)
  ultimately have "totalLoad ?sd \<noteq> 0" by linarith
  then obtain d where d: "renormalise ?sd = Some d" and t: "\<bar>totalLoad d - 100\<bar> \<le> 0.01"
    using renormalise_total by blast
  have "map fst d = map fst ?sd" using d by (rule renormalise_keeps_keys)
  then have "map fst d = map fst (objectEntries cd)" by (simp add: comp_def split_def)
  with d t show ?thesis by (simp add: revertStep_def Let_def)
qed

lemma plainIds_keys: "plainIds c = (\<forall>k \<in> set (map fst (paths c)). \<bar>k\<bar> < 10 ^ 21)"
  by (auto simp: plainIds_def list_all_iff)

lemma rebalance_never_nonfinite:
  assumes "distinct (map fst (paths c))"
  shows "map_option fst (rebalancePaths c g t src dst) \<noteq> Some NonFiniteDistribution"
proof (cases "degradedIds c = [] \<or> validAlternatives c g src dst = []")
  case True
  then show ?thesis by (simp add: rebalance_outcome)
next
  case False
  then show ?thesis
    using rebalance_returns_distribution [OF assms, of g src dst t] by simp
qed

lemma rebalance_sums:
  assumes "distinct (map fst (paths c))" and "plainIds c"
    and "degradedIds c \<noteq> []" and "validAlternatives c g src dst \<noteq> []"
  shows "\<exists>d c'. rebalancePaths c g t src dst = Some (NewDistribution d, c')
           \<and> \<bar>totalLoad d - 100\<bar> \<le> 0.01
           \<and> (healthyIds c \<noteq> [] \<longrightarrow>
                \<bar>totalLoad (currentLoads c') - 100\<bar> \<le> 0.01
                \<and> (\<forall>k \<in> set (map fst (paths c)). loadOf c' k = map_of d k))"
proof (cases "healthyIds c = []")
  case True
  let ?d = "map (\<lambda>k. (k, 100 / real (length (paths c)))) (map fst (paths c))"
  have n: "paths c \<noteq> []"
    using assms(3) degradedIds_registered [of c] by auto
  have "totalLoad ?d = real (length (paths c)) * (100 / real (length (paths c)))"
    by (simp add: totalLoad_def comp_def sum_list_triv)
  then have "totalLoad ?d = 100" using n by simp
  then have "\<bar>totalLoad ?d - 100\<bar> \<le> 0.01" by simp
  then show ?thesis
    using True rebalance_returns_distribution [OF assms(1,3,4), of t] by simp
next
  case False
  let ?c1 = "snd (detectDegradedPaths c t)"
  let ?d = "rebalancedLoads (degradedIds c) (currentLoads c)"
  have r: "rebalancePaths c g t src dst = Some (NewDistribution ?d, applyLoads ?c1 ?d)"
    using False rebalance_returns_distribution [OF assms(1,3,4), of t] by simp
  have t: "totalLoad ?d = 100"
    using assms(1) False by (rule rebalancedLoads_exact)
  have k1: "distinct (map fst (paths ?c1))"
    using assms(1) by (simp add: detectDegradedPaths_keys)
  have kd: "distinct (map fst ?d)"
    using assms(1) by (intro rebalancedLoads_distinct) (simp add: currentLoads_keys)
  have ks: "set (map fst ?d) = set (map fst (paths ?c1))"
    by (simp only: rebalancedLoads_keys currentLoads_keys detectDegradedPaths_keys)
  have pl: "\<forall>k \<in> set (map fst (paths ?c1)). \<bar>k\<bar> < 10 ^ 21"
    using assms(2) by (simp only: plainIds_keys detectDegradedPaths_keys)
  have "\<forall>k \<in> set (map fst (paths ?c1)). loadOf (applyLoads ?c1 ?d) k = map_of ?d k"
    using k1 kd ks pl by (rule applied_loads(1))
  then have l: "\<forall>k \<in> set (map fst (paths c)). loadOf (applyLoads ?c1 ?d) k = map_of ?d k"
    by (simp only: detectDegradedPaths_keys)
  have "totalLoad (currentLoads (applyLoads ?c1 ?d)) = totalLoad ?d"
    using k1 kd ks pl by (rule applied_loads(2))
  then have "\<bar>totalLoad (currentLoads (applyLoads ?c1 ?d)) - 100\<bar> \<le> 0.01"
    using t by simp
  moreover have "\<bar>totalLoad ?d - 100\<bar> \<le> 0.01" using t by simp
  ultimately show ?thesis using r l by blast
qed

lemma revert_sums:
  assumes "distinct (map fst (paths c))" and "plainIds c" and "revertDue c t"
    and "0 < totalLoad (currentLoads c)" and "0 < totalLoad (optimalLoads c)"
  shows "\<exists>sched c''. gradualRevert c t = (Some sched, c'') \<and> length (steps sched) = 5
           \<and> (\<forall>step \<in> set (steps sched).
                 \<exists>sd c3. step_distribution step = Some sd \<and> \<bar>totalLoad sd - 100\<bar> \<le> 0.01
                    \<and> applyTransitionStep c'' step = Some c3
                    \<and> \<bar>totalLoad (currentLoads c3) - 100\<bar> \<le> 0.01
                    \<and> (\<forall>k \<in> set (map fst (paths c)). loadOf c3 k = map_of sd k))"
proof -
  let ?c1 = "snd (detectRecoveredPaths c t)"
  let ?sched = "\<lparr>steps = map (revertStep (currentLoads c) (optimalDistribution c) t) [1..<6],
                 durationMs = TRANSITION_DURATION_MS, startTime = t\<rparr>"
  have g: "gradualRevert c t = (Some ?sched, ?c1)"
    using assms(3) by (simp add: gradualRevert_outcome)
  have len: "length (steps ?sched) = 5" by simp
  have tg: "0 < (\<Sum>(pathId, current)\<leftarrow>currentLoads c. targetOf (optimalDistribution c) pathId)"
    using assms(5) by (simp add: optimal_sum)
  have k1: "distinct (map fst (paths ?c1))"
    using assms(1) by (simp add: detectRecoveredPaths_keys)
  have pl: "\<forall>k \<in> set (map fst (paths ?c1)). \<bar>k\<bar> < 10 ^ 21"
    using assms(2) by (simp only: plainIds_keys detectRecoveredPaths_keys)
  have each: "\<exists>sd c3. step_distribution step = Some sd \<and> \<bar>totalLoad sd - 100\<bar> \<le> 0.01
                    \<and> applyTransitionStep ?c1 step = Some c3
                    \<and> \<bar>totalLoad (currentLoads c3) - 100\<bar> \<le> 0.01
                    \<and> (\<forall>k \<in> set (map fst (paths c)). loadOf c3 k = map_of sd k)"
    if s: "step \<in> set (steps ?sched)" for step
  proof -
    from s obtain i where i: "i \<in> {1..5}"
      and step: "step = revertStep (currentLoads c) (optimalDistribution c) t i"
      by force
    from revertStep_total [OF assms(4) tg i, of t] obtain sd
      where sd: "step_distribution step = Some sd" and tot: "\<bar>totalLoad sd - 100\<bar> \<le> 0.01"
        and keys: "map fst sd = map fst (objectEntries (currentLoads c))"
      unfolding step by blast
    have kd: "distinct (map fst sd)"
      using assms(1) unfolding keys
      by (intro distinct_objectEntries) (simp add: currentLoads_keys)
    have "set (map fst sd) = set (map fst (currentLoads c))"
      unfolding keys by (rule keys_objectEntries)
    then have ks: "set (map fst sd) = set (map fst (paths ?c1))"
      by (simp only: currentLoads_keys detectRecoveredPaths_keys)
    have "\<forall>k \<in> set (map fst (paths ?c1)). loadOf (applyLoads ?c1 sd) k = map_of sd k"
      using k1 kd ks pl by (rule applied_loads(1))
    then have l: "\<forall>k \<in> set (map fst (paths c)). loadOf (applyLoads ?c1 sd) k = map_of sd k"
      by (simp only: detectRecoveredPaths_keys)
    have "totalLoad (currentLoads (applyLoads ?c1 sd)) = totalLoad sd"
      using k1 kd ks pl by (rule applied_loads(2))
    then have t2: "\<bar>totalLoad (currentLoads (applyLoads ?c1 sd)) - 100\<bar> \<le> 0.01"
      using tot by simp
    have "applyTransitionStep ?c1 step = Some (applyLoads ?c1 sd)"
      by (simp add: applyTransitionStep_def sd)
    with sd tot t2 l show ?thesis by blast
  qed
  show ?thesis
    using g len each by blast
qed

text \<open>
  Claim C7, as amended. Let the path ids be distinct and below \<open>10\<^sup>2\<^sup>1\<close> in magnitude. A
  rebalance never divides by zero, and whenever it detects a degraded path and has a
  valid alternative path, it returns a distribution that sums to 100 within 0.01; when
  some path is not detected as degraded it writes the distribution to the registered
  paths, whose loads then sum to 100 within 0.01. Whenever a gradual revert is due, it
  returns a schedule of five steps; every step holds a distribution that sums to 100
  within 0.01, and applying the step makes it the loads of the registered paths,
  provided that every registered path has its optimal load recorded, as \<^verbatim>\<open>registerPath\<close>
  does, and that the current loads and the optimal loads of the registered paths each
  sum to a positive total.
\<close>

theorem distributions_sum_to_100:
  assumes "distinct (map fst (paths c))" and "plainIds c"
  shows "map_option fst (rebalancePaths c g t src dst) \<noteq> Some NonFiniteDistribution
         \<and> (degradedIds c \<noteq> [] \<and> validAlternatives c g src dst \<noteq> [] \<longrightarrow>
              (\<exists>d c'. rebalancePaths c g t src dst = Some (NewDistribution d, c')
                 \<and> \<bar>totalLoad d - 100\<bar> \<le> 0.01
                 \<and> (healthyIds c \<noteq> [] \<longrightarrow>
                      \<bar>totalLoad (currentLoads c') - 100\<bar> \<le> 0.01
                      \<and> (\<forall>k \<in> set (map fst (paths c)). loadOf c' k = map_of d k))))
         \<and> (revertDue c t \<and> optimalRecorded c
              \<and> 0 < totalLoad (currentLoads c) \<and> 0 < totalLoad (optimalLoads c) \<longrightarrow>
              (\<exists>sched c''. gradualRevert c t = (Some sched, c'') \<and> length (steps sched) = 5
                 \<and> (\<forall>step \<in> set (steps sched).
                       \<exists>sd c3. step_distribution step = Some sd \<and> \<bar>totalLoad sd - 100\<bar> \<le> 0.01
                          \<and> applyTransitionStep c'' step = Some c3
                          \<and> \<bar>totalLoad (currentLoads c3) - 100\<bar> \<le> 0.01
                          \<and> (\<forall>k \<in> set (map fst (paths c)). loadOf c3 k = map_of sd k))))"
proof (intro conjI impI)
  show "map_option fst (rebalancePaths c g t src dst) \<noteq> Some NonFiniteDistribution"
    using assms(1) by (rule rebalance_never_nonfinite)
next
  assume "degradedIds c \<noteq> [] \<and> validAlternatives c g src dst \<noteq> []"
  then show "\<exists>d c'. rebalancePaths c g t src dst = Some (NewDistribution d, c')
                 \<and> \<bar>totalLoad d - 100\<bar> \<le> 0.01
                 \<and> (healthyIds c \<noteq> [] \<longrightarrow>
                      \<bar>totalLoad (currentLoads c') - 100\<bar> \<le> 0.01
                      \<and> (\<forall>k \<in> set (map fst (paths c)). loadOf c' k = map_of d k))"
    using rebalance_sums [OF assms] by blast
next
  assume "revertDue c t \<and> optimalRecorded c
              \<and> 0 < totalLoad (currentLoads c) \<and> 0 < totalLoad (optimalLoads c)"
  then show "\<exists>sched c''. gradualRevert c t = (Some sched, c'') \<and> length (steps sched) = 5
                 \<and> (\<forall>step \<in> set (steps sched).
                       \<exists>sd c3. step_distribution step = Some sd \<and> \<bar>totalLoad sd - 100\<bar> \<le> 0.01
                          \<and> applyTransitionStep c'' step = Some c3
                          \<and> \<bar>totalLoad (currentLoads c3) - 100\<bar> \<le> 0.01
                          \<and> (\<forall>k \<in> set (map fst (paths c)). loadOf c3 k = map_of sd k))"
    using revert_sums [OF assms] by blast
qed

theorem distributions_sum_to_100_witness:
  "distinct (map fst (paths rebalanceScenario)) \<and> plainIds rebalanceScenario
   \<and> degradedIds rebalanceScenario \<noteq> [] \<and> healthyIds rebalanceScenario \<noteq> []
   \<and> validAlternatives rebalanceScenario (loadedGraph threeRouteTopology) 1 19 \<noteq> []
   \<and> (\<exists>d c'. rebalancePaths rebalanceScenario (loadedGraph threeRouteTopology) 2000 1 19
                 = Some (NewDistribution d, c')
             \<and> \<bar>totalLoad d - 100\<bar> \<le> 0.01 \<and> \<bar>totalLoad (currentLoads c') - 100\<bar> \<le> 0.01)
   \<and> map_option (\<lambda>(r, c'). (r, currentLoads c'))
        (rebalancePaths rebalanceScenario (loadedGraph threeRouteTopology) 2000 1 19)
       = Some (NewDistribution [(0, 5), (1, 57), (2, 38)], [(0, 5), (1, 57), (2, 38)])
   \<and> distinct (map fst (paths rebalancedScenario)) \<and> plainIds rebalancedScenario
   \<and> revertDue rebalancedScenario 30000 \<and> optimalRecorded rebalancedScenario
   \<and> 0 < totalLoad (currentLoads rebalancedScenario)
   \<and> 0 < totalLoad (optimalLoads rebalancedScenario)
   \<and> (\<exists>sched c''. gradualRevert rebalancedScenario 30000 = (Some sched, c'')
          \<and> length (steps sched) = 5
          \<and> (\<forall>step \<in> set (steps sched).
                \<exists>sd c3. step_distribution step = Some sd \<and> \<bar>totalLoad sd - 100\<bar> \<le> 0.01
                   \<and> applyTransitionStep c'' step = Some c3
                   \<and> \<bar>totalLoad (currentLoads c3) - 100\<bar> \<le> 0.01))
   \<and> map step_distribution (steps revertSchedule)
       = [Some [(0, 14), (1, 258 / 5), (2, 172 / 5)], Some [(0, 23), (1, 231 / 5), (2, 154 / 5)],
          Some [(0, 32), (1, 204 / 5), (2, 136 / 5)], Some [(0, 41), (1, 177 / 5), (2, 118 / 5)],
          Some [(0, 50), (1, 30), (2, 20)]]"
proof -
  let ?G = "loadedGraph threeRouteTopology"
  have a: "distinct (map fst (paths rebalanceScenario))" by code_simp
  have p: "plainIds rebalanceScenario" by code_simp
  have D: "degradedIds rebalanceScenario \<noteq> []" by code_simp
  have H: "healthyIds rebalanceScenario \<noteq> []" by code_simp
  have v: "validAlternatives rebalanceScenario ?G 1 19 \<noteq> []" by code_simp
  have w1: "\<exists>d c'. rebalancePaths rebalanceScenario ?G 2000 1 19 = Some (NewDistribution d, c')
             \<and> \<bar>totalLoad d - 100\<bar> \<le> 0.01 \<and> \<bar>totalLoad (currentLoads c') - 100\<bar> \<le> 0.01"
    using distributions_sum_to_100 [OF a p, of ?G 2000 1 19] D H v by blast
  have b: "map_option (\<lambda>(r, c'). (r, currentLoads c')) (rebalancePaths rebalanceScenario ?G 2000 1 19)
             = Some (NewDistribution [(0, 5), (1, 57), (2, 38)], [(0, 5), (1, 57), (2, 38)])"
    by code_simp
  have a2: "distinct (map fst (paths rebalancedScenario))" by code_simp
  have p2: "plainIds rebalancedScenario" by code_simp
  have r: "revertDue rebalancedScenario 30000" by code_simp
  have o: "optimalRecorded rebalancedScenario" by code_simp
  have t1: "0 < totalLoad (currentLoads rebalancedScenario)" by code_simp
  have t2: "0 < totalLoad (optimalLoads rebalancedScenario)" by code_simp
  have w2: "\<exists>sched c''. gradualRevert rebalancedScenario 30000 = (Some sched, c'')
          \<and> length (steps sched) = 5
          \<and> (\<forall>step \<in> set (steps sched).
                \<exists>sd c3. step_distribution step = Some sd \<and> \<bar>totalLoad sd - 100\<bar> \<le> 0.01
                   \<and> applyTransitionStep c'' step = Some c3
                   \<and> \<bar>totalLoad (currentLoads c3) - 100\<bar> \<le> 0.01)"
    using distributions_sum_to_100 [OF a2 p2, of ?G 30000 1 19] r o t1 t2 by blast
  have s: "map step_distribution (steps revertSchedule)
       = [Some [(0, 14), (1, 258 / 5), (2, 172 / 5)], Some [(0, 23), (1, 231 / 5), (2, 154 / 5)],
          Some [(0, 32), (1, 204 / 5), (2, 136 / 5)], Some [(0, 41), (1, 177 / 5), (2, 118 / 5)],
          Some [(0, 50), (1, 30), (2, 20)]]"
    by code_simp
  from a p D H v w1 b a2 p2 r o t1 t2 w2 s show ?thesis by blast
qed

text \<open>
  Claim C7, as stated, fails in three ways. When the optimal loads sum to zero, the
  current loads sum to 100 and the last step of the schedule interpolates to a total of
  zero, which the re-normalisation divides by: no entry of that step is a number. When
  every path is detected as degraded, the rebalance returns the even split and writes
  nothing: the loads 90 and 5 stay, and sum to 95. With the path ids 1 and \<open>10\<^sup>2\<^sup>1\<close>
  both entries of the new distribution are written to the path 1, whose key comes first
  in the object, and the loads 5 and 50 sum to 55.
\<close>

theorem loads_off_100_counterexample:
  "distinct (map fst (paths zeroOptimalScenario))
   \<and> totalLoad (currentLoads zeroOptimalScenario) = 100
   \<and> map step_distribution (steps (the (fst (gradualRevert zeroOptimalScenario 5000))))
       = [Some [(0, 60), (1, 40)], Some [(0, 60), (1, 40)], Some [(0, 60), (1, 40)],
          Some [(0, 60), (1, 40)], None]
   \<and> distinct (map fst (paths unevenDegradedScenario))
   \<and> totalLoad (currentLoads unevenDegradedScenario) = 95
   \<and> map_option (\<lambda>(r, c'). (r, currentLoads c'))
        (rebalancePaths unevenDegradedScenario (loadedGraph threeRouteTopology) 5000 1 19)
       = Some (NewDistribution [(0, 50), (1, 50)], [(0, 90), (1, 5)])
   \<and> \<bar>totalLoad [(0, 90), (1, 5)] - 100\<bar> > 0.01
   \<and> distinct (map fst (paths bigIdScenario))
   \<and> totalLoad (currentLoads bigIdScenario) = 100
   \<and> map_option (\<lambda>(r, c'). (r, currentLoads c'))
        (rebalancePaths bigIdScenario (loadedGraph threeRouteTopology) 5000 1 19)
       = Some (NewDistribution [(10 ^ 21, 5), (1, 95)], [(1, 5), (10 ^ 21, 50)])
   \<and> \<bar>totalLoad [(1, 5), (10 ^ 21, 50)] - 100\<bar> > 0.01"
  by code_simp

end
